theory Spec2Isabelle
  imports Complex_Main "HOL-Library.Multiset"
begin

section \<open>JavaScript numbers\<close>

text \<open>
  Every value the program computes with is a JavaScript number. The model keeps the three
  special values of IEEE arithmetic apart from the finite numbers. The operations of this
  section compute exactly on the finite ones; the rounding of a result to the nearest
  double is a step of its own, \<open>jround\<close> below, which the engine in double arithmetic
  applies after every operation. Overflow and underflow of doubles are not modelled. There
  is one zero; where IEEE looks at the sign of a zero (a nonzero or infinite value divided
  by zero) the zero is taken as \<open>+0\<close>.
\<close>

datatype jsnum = Num real | PosInf | NegInf | NaN

fun isNaN :: "jsnum \<Rightarrow> bool" where
  "isNaN NaN = True"
| "isNaN _ = False"

text \<open>Unary minus.\<close>

fun jneg :: "jsnum \<Rightarrow> jsnum" where
  "jneg (Num a) = Num (- a)"
| "jneg PosInf = NegInf"
| "jneg NegInf = PosInf"
| "jneg NaN = NaN"

text \<open>\<open>a + b\<close>: opposite infinities cancel to NaN.\<close>

fun jadd :: "jsnum \<Rightarrow> jsnum \<Rightarrow> jsnum" where
  "jadd (Num a) (Num b) = Num (a + b)"
| "jadd NaN _ = NaN"
| "jadd _ NaN = NaN"
| "jadd PosInf NegInf = NaN"
| "jadd NegInf PosInf = NaN"
| "jadd PosInf _ = PosInf"
| "jadd _ PosInf = PosInf"
| "jadd NegInf _ = NegInf"
| "jadd _ NegInf = NegInf"

definition jsub :: "jsnum \<Rightarrow> jsnum \<Rightarrow> jsnum" where
  "jsub a b = jadd a (jneg b)"

text \<open>\<open>a * b\<close>: zero times infinity is NaN.\<close>

fun jmul :: "jsnum \<Rightarrow> jsnum \<Rightarrow> jsnum" where
  "jmul (Num a) (Num b) = Num (a * b)"
| "jmul NaN _ = NaN"
| "jmul _ NaN = NaN"
| "jmul (Num a) b = (if a = 0 then NaN else if (0 < a) = (b = PosInf) then PosInf else NegInf)"
| "jmul a (Num b) = (if b = 0 then NaN else if (0 < b) = (a = PosInf) then PosInf else NegInf)"
| "jmul a b = (if a = b then PosInf else NegInf)"

text \<open>\<open>a / b\<close>: \<open>0 / 0\<close> and \<open>\<infinity> / \<infinity>\<close> are NaN, a nonzero number over zero is infinite.\<close>

fun jdiv :: "jsnum \<Rightarrow> jsnum \<Rightarrow> jsnum" where
  "jdiv (Num a) (Num b) =
     (if b \<noteq> 0 then Num (a / b)
      else if a = 0 then NaN
      else if 0 < a then PosInf else NegInf)"
| "jdiv NaN _ = NaN"
| "jdiv _ NaN = NaN"
| "jdiv (Num a) _ = Num 0"
| "jdiv a (Num b) = (if (0 \<le> b) = (a = PosInf) then PosInf else NegInf)"
| "jdiv _ _ = NaN"

text \<open>\<open>x ** 2\<close>.\<close>

definition jsquare :: "jsnum \<Rightarrow> jsnum" where
  "jsquare a = jmul a a"

text \<open>\<open>Math.sqrt\<close>, \<open>Math.log\<close>, \<open>Math.cos\<close>, \<open>Math.abs\<close>.\<close>

fun jsqrt :: "jsnum \<Rightarrow> jsnum" where
  "jsqrt (Num a) = (if a < 0 then NaN else Num (sqrt a))"
| "jsqrt PosInf = PosInf"
| "jsqrt _ = NaN"

fun jlog :: "jsnum \<Rightarrow> jsnum" where
  "jlog (Num a) = (if a < 0 then NaN else if a = 0 then NegInf else Num (ln a))"
| "jlog PosInf = PosInf"
| "jlog _ = NaN"

fun jcos :: "jsnum \<Rightarrow> jsnum" where
  "jcos (Num a) = Num (cos a)"
| "jcos _ = NaN"

fun jabs :: "jsnum \<Rightarrow> jsnum" where
  "jabs (Num a) = Num \<bar>a\<bar>"
| "jabs NaN = NaN"
| "jabs _ = PosInf"

text \<open>The comparisons \<open><\<close>, \<open><=\<close>, \<open>>\<close> and \<open>===\<close>: all false when a side is NaN.\<close>

fun jlt :: "jsnum \<Rightarrow> jsnum \<Rightarrow> bool" where
  "jlt (Num a) (Num b) = (a < b)"
| "jlt NaN _ = False"
| "jlt _ NaN = False"
| "jlt _ NegInf = False"
| "jlt NegInf _ = True"
| "jlt PosInf _ = False"
| "jlt _ PosInf = True"

fun jle :: "jsnum \<Rightarrow> jsnum \<Rightarrow> bool" where
  "jle (Num a) (Num b) = (a \<le> b)"
| "jle NaN _ = False"
| "jle _ NaN = False"
| "jle NegInf _ = True"
| "jle _ PosInf = True"
| "jle _ _ = False"

definition jgt :: "jsnum \<Rightarrow> jsnum \<Rightarrow> bool" where
  "jgt a b = jlt b a"

definition jseq :: "jsnum \<Rightarrow> jsnum \<Rightarrow> bool" where
  "jseq a b = (a = b \<and> \<not> isNaN a)"

text \<open>\<open>a || b\<close> on numbers: the left operand unless it is falsy, that is zero or NaN.\<close>

fun truthy :: "jsnum \<Rightarrow> bool" where
  "truthy (Num a) = (a \<noteq> 0)"
| "truthy NaN = False"
| "truthy _ = True"

definition jor :: "jsnum \<Rightarrow> jsnum \<Rightarrow> jsnum" where
  "jor a b = (if truthy a then a else b)"

text \<open>
  An array read \<open>a[i]\<close>. Past the end JavaScript yields \<open>undefined\<close>; every such read in
  this program is an operand of a subtraction, which turns \<open>undefined\<close> into NaN.
\<close>

definition aget :: "jsnum list \<Rightarrow> nat \<Rightarrow> jsnum" where
  "aget a i = (if i < length a then a ! i else NaN)"


section \<open>The sample generator\<close>

text \<open>
  \<open>Math.random()\<close> is modelled by the sequence \<open>rnd\<close> of the numbers it returns, each in
  \<open>[0, 1)\<close>, and a counter \<open>k\<close> of the draws made so far. \<open>Math.PI\<close> is \<open>pi\<close>.

  The loop \<open>while (u === 0) u = Math.random()\<close> need not end: it is a partial function,
  with value \<open>None\<close> when every further draw is zero.
\<close>

partial_function (option) draw_while_zero :: "(nat \<Rightarrow> real) \<Rightarrow> real \<Rightarrow> nat \<Rightarrow> (real \<times> nat) option" where
  "draw_while_zero rnd u k = (if u = 0 then draw_while_zero rnd (rnd k) (Suc k) else Some (u, k))"

text \<open>\<open>randn\<close>: two such loops, both started at \<open>0\<close>, then the Box-Muller formula.\<close>

definition randn :: "(nat \<Rightarrow> real) \<Rightarrow> nat \<Rightarrow> (jsnum \<times> nat) option" where
  "randn rnd k =
     (case draw_while_zero rnd 0 k of
        None \<Rightarrow> None
      | Some (u, k1) \<Rightarrow>
          (case draw_while_zero rnd 0 k1 of
             None \<Rightarrow> None
           | Some (v, k2) \<Rightarrow>
               Some (jmul (jsqrt (jmul (Num (- 2)) (jlog (Num u))))
                          (jcos (jmul (jmul (Num 2) (Num pi)) (Num v))), k2)))"

text \<open>
  \<open>generateBivariateNormal\<close>: the \<open>for\<close> loop with its counter \<open>i\<close>, the two arrays and the
  draw counter; \<open>push\<close> appends.
\<close>

function gen_loop ::
    "(nat \<Rightarrow> real) \<Rightarrow> jsnum \<Rightarrow> jsnum \<Rightarrow> nat \<Rightarrow> nat \<Rightarrow> jsnum list \<Rightarrow> jsnum list \<Rightarrow> nat
     \<Rightarrow> ((jsnum list \<times> jsnum list) \<times> nat) option" where
  "gen_loop rnd rho s n i xs ys k =
     (if i < n
      then (case randn rnd k of
              None \<Rightarrow> None
            | Some (x, k1) \<Rightarrow>
                (case randn rnd k1 of
                   None \<Rightarrow> None
                 | Some (e, k2) \<Rightarrow>
                     let y = jadd (jmul rho x) (jmul s e)
                     in gen_loop rnd rho s n (Suc i) (xs @ [x]) (ys @ [y]) k2))
      else Some ((xs, ys), k))"
  by pat_completeness auto
termination
  by (relation "measure (\<lambda>(rnd, rho, s, n, i, xs, ys, k). n - i)") auto

declare gen_loop.simps [simp del]

definition generateBivariateNormal ::
    "(nat \<Rightarrow> real) \<Rightarrow> nat \<Rightarrow> nat \<Rightarrow> jsnum \<Rightarrow> ((jsnum list \<times> jsnum list) \<times> nat) option" where
  "generateBivariateNormal rnd k n rho =
     (let s = jsqrt (jsub (Num 1) (jmul rho rho))
      in gen_loop rnd rho s n 0 [] [] k)"

section \<open>The correlation engine\<close>

text \<open>\<open>mean\<close>: the sum by \<open>reduce\<close> from \<open>0\<close>, over the length.\<close>

definition mean :: "jsnum list \<Rightarrow> jsnum" where
  "mean a = jdiv (foldl (\<lambda>s v. jadd s v) (Num 0) a) (Num (real (length a)))"

text \<open>\<open>sd\<close>: the squared deviations from the mean, summed, over \<open>length - 1\<close>, under the root.\<close>

definition sd :: "jsnum list \<Rightarrow> jsnum" where
  "sd a =
     (let m = mean a;
          v = jdiv (foldl (\<lambda>s x. jadd s (jsquare (jsub x m))) (Num 0) a)
                   (Num (real (length a) - 1))
      in jsqrt v)"

text \<open>
  \<open>pearsonr\<close>: the loop runs over the indices of \<open>x\<close> and reads \<open>y\<close> at the same index,
  also when \<open>y\<close> is the shorter array. The arithmetic of \<open>mean\<close>, \<open>sd\<close> and \<open>pearsonr\<close>
  is exact here. On a sample of equal values that is not what the program computes: there
  the rounding of the mean decides whether the deviations are zero, and the functions with
  rounding, \<open>mean_fl\<close>, \<open>sd_fl\<close> and \<open>pearsonr_fl\<close> below, are the ones to read.
\<close>

definition pearsonr :: "jsnum list \<Rightarrow> jsnum list \<Rightarrow> jsnum" where
  "pearsonr x y =
     (let n = length x;
          mx = mean x;
          my = mean y;
          cov = foldl (\<lambda>cov i. jadd cov (jmul (jsub (aget x i) mx) (jsub (aget y i) my)))
                  (Num 0) [0..<n];
          cov = jdiv cov (Num (real n - 1))
      in jdiv cov (jmul (sd x) (sd y)))"

text \<open>
  \<open>pairs.sort((a, b) => a.v - b.v)\<close>. The built-in sort is stable and puts \<open>a\<close> after
  \<open>b\<close> only where the comparator is positive; a comparator value of NaN counts as zero.
  Insertion from the right computes that order.
\<close>

fun insert_by :: "('a \<Rightarrow> 'a \<Rightarrow> jsnum) \<Rightarrow> 'a \<Rightarrow> 'a list \<Rightarrow> 'a list" where
  "insert_by cmp a [] = [a]"
| "insert_by cmp a (b # bs) =
     (if jgt (cmp a b) (Num 0) then b # insert_by cmp a bs else a # b # bs)"

definition array_sort :: "('a \<Rightarrow> 'a \<Rightarrow> jsnum) \<Rightarrow> 'a list \<Rightarrow> 'a list" where
  "array_sort cmp a = foldr (insert_by cmp) a []"

text \<open>
  \<open>rankArray\<close>. A pair \<open>{v, i}\<close> is \<open>(v, i)\<close>. The inner \<open>while\<close> moves \<open>j\<close> to the last
  position of the run of equal values that starts at \<open>i\<close>.
\<close>

function tie_end :: "(jsnum \<times> nat) list \<Rightarrow> nat \<Rightarrow> nat \<Rightarrow> nat" where
  "tie_end pairs i j =
     (if j + 1 < length pairs \<and> jseq (fst (pairs ! (j + 1))) (fst (pairs ! i))
      then tie_end pairs i (j + 1) else j)"
  by pat_completeness auto
termination
  by (relation "measure (\<lambda>(pairs, i, j). length pairs - j)") auto

declare tie_end.simps [simp del]

lemma tie_end_ge: "j \<le> tie_end pairs i j"
proof (induction pairs i j rule: tie_end.induct)
  case (1 pairs i j)
  show ?case
  proof (cases "j + 1 < length pairs \<and> jseq (fst (pairs ! (j + 1))) (fst (pairs ! i))")
    case True
    with "1" have "j + 1 \<le> tie_end pairs i (j + 1)" by simp
    moreover from True have "tie_end pairs i j = tie_end pairs i (j + 1)"
      by (subst tie_end.simps) simp
    ultimately show ?thesis by simp
  next
    case False
    then have "tie_end pairs i j = j"
      by (subst tie_end.simps) auto
    then show ?thesis by simp
  qed
qed

text \<open>
  The outer \<open>while\<close>: the run from \<open>i\<close> to \<open>j\<close> gets the rank \<open>(i + j + 2) / 2\<close>, written
  by the \<open>for\<close> loop at the original index of each of its pairs; the next run starts at
  \<open>j + 1\<close>. Every index written is below the length of \<open>ranks\<close>.
\<close>

function rank_loop :: "(jsnum \<times> nat) list \<Rightarrow> nat \<Rightarrow> jsnum list \<Rightarrow> jsnum list" where
  "rank_loop pairs i ranks =
     (if i < length pairs
      then let j = tie_end pairs i i;
               avgRank = jdiv (Num (real i + real j + 2)) (Num 2);
               ranks = foldl (\<lambda>ranks k. ranks[snd (pairs ! k) := avgRank]) ranks [i..<Suc j]
           in rank_loop pairs (j + 1) ranks
      else ranks)"
  by pat_completeness auto
termination
proof (relation "measure (\<lambda>(pairs, i, ranks). length pairs - i)")
  show "wf (measure (\<lambda>(pairs, i, ranks). length pairs - i))"
    by simp
next
  fix pairs :: "(jsnum \<times> nat) list" and i :: nat and ranks :: "jsnum list"
    and j :: nat and avgRank :: jsnum and ranks' :: "jsnum list"
  assume "i < length pairs" and "j = tie_end pairs i i"
  moreover have "i \<le> tie_end pairs i i" by (rule tie_end_ge)
  ultimately show "((pairs, j + 1, ranks'), (pairs, i, ranks))
      \<in> measure (\<lambda>(pairs, i, ranks). length pairs - i)"
    by simp
qed

declare rank_loop.simps [simp del]

text \<open>
  \<open>new Array(arr.length)\<close> has no element yet; the model marks an unwritten position by
  NaN. On a sample of finite numbers the loop writes a number at every position before the
  array is returned, as the rank transform theorem below shows.
\<close>

definition rankArray :: "jsnum list \<Rightarrow> jsnum list" where
  "rankArray arr =
     (let pairs = zip arr [0..<length arr];
          pairs = array_sort (\<lambda>a b. jsub (fst a) (fst b)) pairs;
          ranks = replicate (length arr) NaN
      in rank_loop pairs 0 ranks)"

definition spearmanr :: "jsnum list \<Rightarrow> jsnum list \<Rightarrow> jsnum" where
  "spearmanr x y =
     (let rx = rankArray x;
          ry = rankArray y
      in pearsonr rx ry)"

text \<open>
  \<open>kendallTau\<close>: the body of the inner loop for one pair \<open>i < j\<close>, on the two counters
  \<open>(concordant, discordant)\<close>; then the two loops and the quotient.
\<close>

definition pair_step ::
    "jsnum list \<Rightarrow> jsnum list \<Rightarrow> nat \<Rightarrow> nat \<times> nat \<Rightarrow> nat \<Rightarrow> nat \<times> nat" where
  "pair_step x y i cd j =
     (let dx = jsub (aget x i) (aget x j);
          dy = jsub (aget y i) (aget y j);
          prod = jmul dx dy
      in if jgt prod (Num 0) then (Suc (fst cd), snd cd)
         else if jlt prod (Num 0) then (fst cd, Suc (snd cd))
         else cd)"

definition kendallTau :: "jsnum list \<Rightarrow> jsnum list \<Rightarrow> jsnum" where
  "kendallTau x y =
     (let n = length x;
          cd = foldl (\<lambda>acc i. foldl (pair_step x y i) acc [Suc i..<n]) (0, 0) [0..<n - 1];
          denom = jdiv (jmul (Num (real n)) (Num (real n - 1))) (Num 2)
      in jdiv (jsub (Num (real (fst cd))) (Num (real (snd cd)))) denom)"

section \<open>The guess check\<close>

text \<open>
  The object \<open>current\<close> holds the round: the sample and its three statistics.
\<close>

record round =
  sample_xs :: "jsnum list"
  sample_ys :: "jsnum list"
  pearson :: jsnum
  spearman :: jsnum
  kendall :: jsnum

text \<open>
  What \<open>checkGuesses\<close> writes into \<open>resultDiv\<close>: either the one-line request to fill all
  three guesses, or the report. The markup prints the numbers of the report through
  \<open>fmt\<close>; the model keeps the numbers themselves.
\<close>

record report =
  aPearson :: jsnum
  aSpearman :: jsnum
  aKendall :: jsnum
  gPearson :: jsnum
  gSpearman :: jsnum
  gKendall :: jsnum
  pDiff :: jsnum
  sDiff :: jsnum
  kDiff :: jsnum
  pPass :: bool
  sPass :: bool
  kPass :: bool
  allPass :: bool

datatype feedback = NewPlot nat | FillAllThree | Verdict report

text \<open>
  The part of the page the handler reads and writes. The call \<open>e.preventDefault()\<close>
  touches none of it and is left out.
\<close>

record page =
  toleranceInput :: string
  pearsonInput :: string
  spearmanInput :: string
  kendallInput :: string
  resultDiv :: feedback
  current :: round

text \<open>
  \<open>const tol = Math.abs(parseFloat(toleranceInput.value) || 0.1)\<close>. The built-in
  \<open>parseFloat\<close> is a parameter \<open>pf\<close> of the model: it maps the text of a field to a
  number, NaN when the text does not start with one.
\<close>

definition tol :: "(string \<Rightarrow> jsnum) \<Rightarrow> page \<Rightarrow> jsnum" where
  "tol pf s = jabs (jor (pf (toleranceInput s)) (Num (1 / 10)))"

definition checkGuesses :: "(string \<Rightarrow> jsnum) \<Rightarrow> page \<Rightarrow> page" where
  "checkGuesses pf s =
     (let t = tol pf s;
          gP = pf (pearsonInput s);
          gS = pf (spearmanInput s);
          gK = pf (kendallInput s)
      in if isNaN gP \<or> isNaN gS \<or> isNaN gK then s\<lparr>resultDiv := FillAllThree\<rparr>
         else
           let aP = pearson (current s);
               aS = spearman (current s);
               aK = kendall (current s);
               pD = jabs (jsub gP aP);
               sD = jabs (jsub gS aS);
               kD = jabs (jsub gK aK);
               pOk = jle pD t;
               sOk = jle sD t;
               kOk = jle kD t
           in s\<lparr>resultDiv := Verdict
                  \<lparr>aPearson = aP, aSpearman = aS, aKendall = aK,
                   gPearson = gP, gSpearman = gS, gKendall = gK,
                   pDiff = pD, sDiff = sD, kDiff = kD,
                   pPass = pOk, sPass = sOk, kPass = kOk,
                   allPass = (pOk \<and> sOk \<and> kOk)\<rparr>\<rparr>)"


section \<open>Reference definitions\<close>

text \<open>
  The statistics as the specification words them, on lists of real numbers. The engine is
  compared with these below.
\<close>

text \<open>The index pairs \<open>i < j < n\<close>, each unordered pair of observations once.\<close>

definition index_pairs :: "nat \<Rightarrow> (nat \<times> nat) list" where
  "index_pairs n = concat (map (\<lambda>i. map (Pair i) [Suc i..<n]) [0..<n])"

text \<open>
  The number of concordant pairs (product of the differences strictly positive) and of
  discordant pairs (strictly negative). A pair with product zero is in neither.
\<close>

definition concordant :: "real list \<Rightarrow> real list \<Rightarrow> nat" where
  "concordant xs ys =
     length (filter (\<lambda>(i, j). 0 < (xs ! i - xs ! j) * (ys ! i - ys ! j))
               (index_pairs (length xs)))"

definition discordant :: "real list \<Rightarrow> real list \<Rightarrow> nat" where
  "discordant xs ys =
     length (filter (\<lambda>(i, j). (xs ! i - xs ! j) * (ys ! i - ys ! j) < 0)
               (index_pairs (length xs)))"

text \<open>Mean, sample variance, sample standard deviation and sample covariance (divisor \<open>n - 1\<close>).\<close>

definition sample_mean :: "real list \<Rightarrow> real" where
  "sample_mean xs = sum_list xs / real (length xs)"

definition sample_var :: "real list \<Rightarrow> real" where
  "sample_var xs = (\<Sum>x\<leftarrow>xs. (x - sample_mean xs)\<^sup>2) / (real (length xs) - 1)"

definition sample_sd :: "real list \<Rightarrow> real" where
  "sample_sd xs = sqrt (sample_var xs)"

definition sample_cov :: "real list \<Rightarrow> real list \<Rightarrow> real" where
  "sample_cov xs ys =
     (\<Sum>(x, y)\<leftarrow>zip xs ys. (x - sample_mean xs) * (y - sample_mean ys))
       / (real (length xs) - 1)"

text \<open>
  The mid-rank of a value \<open>v\<close> in a sample: with \<open>l\<close> values smaller than \<open>v\<close> and \<open>k\<close>
  values equal to it, the arithmetic mean of the \<open>k\<close> consecutive ranks \<open>l + 1, \<dots>, l + k\<close>.
\<close>

definition midrank :: "real list \<Rightarrow> real \<Rightarrow> real" where
  "midrank xs v =
     (let l = length (filter (\<lambda>u. u < v) xs);
          k = length (filter (\<lambda>u. u = v) xs)
      in (\<Sum>r\<leftarrow>[l + 1..<l + k + 1]. real r) / real k)"

text \<open>
  The first \<open>m\<close> pairs \<open>(x, e)\<close> of results of successive calls of \<open>randn\<close>, from draw
  \<open>k\<close> on.
\<close>

fun randn_pairs :: "(nat \<Rightarrow> real) \<Rightarrow> nat \<Rightarrow> nat \<Rightarrow> ((jsnum \<times> jsnum) list \<times> nat) option" where
  "randn_pairs rnd k 0 = Some ([], k)"
| "randn_pairs rnd k (Suc m) =
     (case randn rnd k of
        None \<Rightarrow> None
      | Some (x, k1) \<Rightarrow>
          (case randn rnd k1 of
             None \<Rightarrow> None
           | Some (e, k2) \<Rightarrow>
               (case randn_pairs rnd k2 m of
                  None \<Rightarrow> None
                | Some (ps, k3) \<Rightarrow> Some ((x, e) # ps, k3))))"

section \<open>The engine in double arithmetic\<close>

text \<open>
  Every arithmetic operation of the program rounds its result to the nearest double. The
  functions \<open>mean\<close>, \<open>sd\<close>, \<open>pearsonr\<close> and \<open>spearmanr\<close> above leave that rounding out.
  On a sample of equal values the rounding decides the outcome: the deviations from the
  exact mean are all zero, the deviations from the computed mean need not be. For such
  samples the same functions are given here with a rounding step \<open>fl\<close> after every
  operation. With the identity for \<open>fl\<close> they are the functions above; with \<open>binary64\<close>
  they compute as the program does, as long as no result leaves the exponent range of
  doubles.
\<close>




text \<open>The rounding step on a JavaScript number; the special values are left as they are.\<close>

fun jround :: "(real \<Rightarrow> real) \<Rightarrow> jsnum \<Rightarrow> jsnum" where
  "jround fl (Num a) = Num (fl a)"
| "jround fl v = v"

text \<open>
  \<open>mean\<close>, \<open>sd\<close>, \<open>pearsonr\<close> and \<open>spearmanr\<close> with the result of every addition,
  subtraction, multiplication, division and square root rounded. \<open>x ** 2\<close> is the rounded
  product of \<open>x\<close> with itself. The lengths and \<open>length - 1\<close> are integers and need no
  rounding; neither do the ranks, which are halves of integers.
\<close>

definition mean_fl :: "(real \<Rightarrow> real) \<Rightarrow> jsnum list \<Rightarrow> jsnum" where
  "mean_fl fl a =
     jround fl (jdiv (foldl (\<lambda>s v. jround fl (jadd s v)) (Num 0) a) (Num (real (length a))))"

definition sd_fl :: "(real \<Rightarrow> real) \<Rightarrow> jsnum list \<Rightarrow> jsnum" where
  "sd_fl fl a =
     (let m = mean_fl fl a;
          v = jround fl (jdiv
                (foldl (\<lambda>s x. jround fl (jadd s (jround fl (jsquare (jround fl (jsub x m))))))
                   (Num 0) a)
                (Num (real (length a) - 1)))
      in jround fl (jsqrt v))"

definition pearsonr_fl :: "(real \<Rightarrow> real) \<Rightarrow> jsnum list \<Rightarrow> jsnum list \<Rightarrow> jsnum" where
  "pearsonr_fl fl x y =
     (let n = length x;
          mx = mean_fl fl x;
          my = mean_fl fl y;
          cov = foldl (\<lambda>cov i. jround fl (jadd cov
                    (jround fl (jmul (jround fl (jsub (aget x i) mx))
                                     (jround fl (jsub (aget y i) my))))))
                  (Num 0) [0..<n];
          cov = jround fl (jdiv cov (Num (real n - 1)))
      in jround fl (jdiv cov (jround fl (jmul (sd_fl fl x) (sd_fl fl y)))))"

definition spearmanr_fl :: "(real \<Rightarrow> real) \<Rightarrow> jsnum list \<Rightarrow> jsnum list \<Rightarrow> jsnum" where
  "spearmanr_fl fl x y =
     (let rx = rankArray x;
          ry = rankArray y
      in pearsonr_fl fl rx ry)"




section \<open>Properties of the sample generator\<close>

text \<open>The redraw loop passes over zeros and stops at the first nonzero draw.\<close>

lemma draw_skip:
  assumes "k \<le> j" "\<forall>i. k \<le> i \<and> i < j \<longrightarrow> rnd i = 0"
  shows "draw_while_zero rnd 0 k = draw_while_zero rnd 0 j"
  using assms
proof (induction "j - k" arbitrary: k)
  case 0
  then have "k = j" by simp
  then show ?case by (simp only:)
next
  case (Suc d)
  then have kj: "k < j" by simp
  with Suc.prems(2) have z: "rnd k = 0" by blast
  have rest: "\<forall>i. Suc k \<le> i \<and> i < j \<longrightarrow> rnd i = 0"
  proof (intro allI impI)
    fix i assume "Suc k \<le> i \<and> i < j"
    then have "k \<le> i \<and> i < j" by simp
    with Suc.prems(2) show "rnd i = 0" by blast
  qed
  have d: "d = j - Suc k" using Suc.hyps(2) by simp
  have "draw_while_zero rnd 0 k = draw_while_zero rnd (rnd k) (Suc k)"
    by (subst draw_while_zero.simps) simp
  also have "\<dots> = draw_while_zero rnd 0 (Suc k)" by (simp only: z)
  also have "\<dots> = draw_while_zero rnd 0 j"
    using kj by (intro Suc.hyps(1) [OF d _ rest]) simp
  finally show ?case .
qed

lemma draw_hit:
  assumes "rnd j \<noteq> 0"
  shows "draw_while_zero rnd 0 j = Some (rnd j, Suc j)"
proof -
  have "draw_while_zero rnd 0 j = draw_while_zero rnd (rnd j) (Suc j)"
    by (subst draw_while_zero.simps) simp
  also have "\<dots> = Some (rnd j, Suc j)"
    using assms by (subst draw_while_zero.simps) simp
  finally show ?thesis .
qed

lemma draw_returns:
  assumes "\<exists>j\<ge>k. rnd j \<noteq> 0"
  shows "\<exists>j\<ge>k. rnd j \<noteq> 0 \<and> (\<forall>i. k \<le> i \<and> i < j \<longrightarrow> rnd i = 0)
           \<and> draw_while_zero rnd 0 k = Some (rnd j, Suc j)"
proof -
  define j where "j = (LEAST j. k \<le> j \<and> rnd j \<noteq> 0)"
  from assms obtain j0 where "k \<le> j0 \<and> rnd j0 \<noteq> 0" by blast
  then have j: "k \<le> j \<and> rnd j \<noteq> 0" unfolding j_def by (rule LeastI)
  have skip: "\<forall>i. k \<le> i \<and> i < j \<longrightarrow> rnd i = 0"
  proof (intro allI impI)
    fix i assume i: "k \<le> i \<and> i < j"
    show "rnd i = 0"
    proof (rule ccontr)
      assume "rnd i \<noteq> 0"
      with i have "k \<le> i \<and> rnd i \<noteq> 0" by simp
      then have "j \<le> i" unfolding j_def by (rule Least_le)
      with i show False by simp
    qed
  qed
  from j have "draw_while_zero rnd 0 k = draw_while_zero rnd 0 j"
    by (intro draw_skip skip) simp
  also have "\<dots> = Some (rnd j, Suc j)" using j by (intro draw_hit) simp
  finally show ?thesis using j skip by blast
qed

lemma randn_value:
  assumes u: "draw_while_zero rnd 0 k = Some (u, k1)" and v: "draw_while_zero rnd 0 k1 = Some (v, k2)"
    and pos: "0 < u" "u < 1"
  shows "randn rnd k = Some (Num (sqrt (- 2 * ln u) * cos (2 * pi * v)), k2)"
proof -
  have "ln u \<le> 0" using pos by simp
  then have "\<not> - 2 * ln u < 0" by simp
  then have "\<not> - (2 * ln u) < 0" by simp
  then show ?thesis
    using pos by (simp add: randn_def u v)
qed

text \<open>
  Claim C8. Let the draws lie in \<open>[0, 1)\<close> and let nonzero draws keep coming. Then \<open>randn\<close>
  returns. It takes for \<open>u\<close> the first nonzero draw \<open>rnd i\<close> and for \<open>v\<close> the next nonzero
  draw \<open>rnd j\<close>; every draw it skipped was zero. The argument of the logarithm is
  strictly positive, so the logarithm is the number \<open>ln u\<close>, and the result is the
  Box-Muller value of \<open>u\<close> and \<open>v\<close>.
\<close>

theorem randn_log_argument_positive:
  assumes range: "\<forall>j. 0 \<le> rnd j \<and> rnd j < 1" and nz: "\<forall>k. \<exists>j\<ge>k. rnd j \<noteq> 0"
  shows "\<exists>i j. k \<le> i \<and> i < j
      \<and> (\<forall>m. k \<le> m \<and> m < i \<longrightarrow> rnd m = 0) \<and> (\<forall>m. i < m \<and> m < j \<longrightarrow> rnd m = 0)
      \<and> 0 < rnd i \<and> 0 < rnd j
      \<and> jlog (Num (rnd i)) = Num (ln (rnd i))
      \<and> randn rnd k = Some (Num (sqrt (- 2 * ln (rnd i)) * cos (2 * pi * rnd j)), Suc j)"
proof -
  from nz have "\<exists>j\<ge>k. rnd j \<noteq> 0" by blast
  from draw_returns [OF this] obtain i where i: "k \<le> i" "rnd i \<noteq> 0"
    "\<forall>m. k \<le> m \<and> m < i \<longrightarrow> rnd m = 0" "draw_while_zero rnd 0 k = Some (rnd i, Suc i)"
    by blast
  from nz have "\<exists>j\<ge>Suc i. rnd j \<noteq> 0" by blast
  from draw_returns [OF this] obtain j where j: "Suc i \<le> j" "rnd j \<noteq> 0"
    "\<forall>m. Suc i \<le> m \<and> m < j \<longrightarrow> rnd m = 0" "draw_while_zero rnd 0 (Suc i) = Some (rnd j, Suc j)"
    by blast
  from range i(2) have ui: "0 < rnd i" "rnd i < 1"
    by (simp_all add: less_le)
  from range j(2) have vj: "0 < rnd j" by (simp add: less_le)
  have skip2: "\<forall>m. i < m \<and> m < j \<longrightarrow> rnd m = 0"
  proof (intro allI impI)
    fix m assume "i < m \<and> m < j"
    then have "Suc i \<le> m \<and> m < j" by simp
    with j(3) show "rnd m = 0" by blast
  qed
  have lg: "jlog (Num (rnd i)) = Num (ln (rnd i))" using ui by simp
  have ij: "i < j" using j(1) by simp
  note val = randn_value [OF i(4) j(4) ui]
  from i(1) ij i(3) skip2 ui(1) vj lg val show ?thesis by blast
qed

text \<open>The draws \<open>0, 1/2, 1/2\<close>: the zero is skipped.\<close>

theorem randn_log_argument_positive_witness:
  "randn (\<lambda>j. if j = 0 then 0 else 1 / 2) 0
   = Some (Num (sqrt (- 2 * ln (1 / 2)) * cos (2 * pi * (1 / 2))), 3)"
proof -
  let ?r = "\<lambda>j::nat. if j = 0 then (0::real) else 1 / 2"
  have range: "\<forall>j. 0 \<le> ?r j \<and> ?r j < 1" by simp
  have nz: "\<forall>k. \<exists>j\<ge>k. ?r j \<noteq> 0"
  proof
    fix k show "\<exists>j\<ge>k. ?r j \<noteq> 0" by (rule exI [of _ "Suc k"]) simp
  qed
  from randn_log_argument_positive [OF range nz, of 0] obtain i j where
    ij: "i < j" and before: "\<forall>m. 0 \<le> m \<and> m < i \<longrightarrow> ?r m = 0"
    and between: "\<forall>m. i < m \<and> m < j \<longrightarrow> ?r m = 0"
    and u: "0 < ?r i" and v: "0 < ?r j"
    and val: "randn ?r 0 = Some (Num (sqrt (- 2 * ln (?r i)) * cos (2 * pi * ?r j)), Suc j)"
    by blast
  have i0: "i \<noteq> 0" using u by (cases "i = 0") simp_all
  have "\<not> 1 < i"
  proof
    assume "1 < i"
    then have "0 \<le> (1::nat) \<and> 1 < i" by simp
    with before have "?r 1 = 0" by blast
    then show False by simp
  qed
  with i0 have i1: "i = 1" by simp
  have "\<not> 2 < j"
  proof
    assume "2 < j"
    with i1 have "i < 2 \<and> 2 < j" by simp
    with between have "?r 2 = 0" by blast
    then show False by simp
  qed
  with ij i1 have j2: "j = 2" by simp
  from val show ?thesis unfolding i1 j2 by simp
qed

text \<open>The loop of the generator consumes the pairs of normal draws one by one.\<close>

lemma randn_returns:
  assumes nz: "\<forall>k. \<exists>j\<ge>k. rnd j \<noteq> 0"
  shows "\<exists>z k'. randn rnd k = Some (z, k')"
proof -
  from nz have "\<exists>j\<ge>k. rnd j \<noteq> 0" by blast
  from draw_returns [OF this] obtain i where i: "draw_while_zero rnd 0 k = Some (rnd i, Suc i)"
    by blast
  from nz have "\<exists>j\<ge>Suc i. rnd j \<noteq> 0" by blast
  from draw_returns [OF this] obtain j where
    j: "draw_while_zero rnd 0 (Suc i) = Some (rnd j, Suc j)" by blast
  show ?thesis by (simp add: randn_def i j)
qed

lemma randn_pairs_returns:
  assumes nz: "\<forall>k. \<exists>j\<ge>k. rnd j \<noteq> 0"
  shows "\<exists>ps k'. randn_pairs rnd k n = Some (ps, k') \<and> length ps = n"
proof (induction n arbitrary: k)
  case 0
  show ?case by simp
next
  case (Suc n)
  from randn_returns [OF nz] obtain x k1 where x: "randn rnd k = Some (x, k1)" by blast
  from randn_returns [OF nz] obtain e k2 where e: "randn rnd k1 = Some (e, k2)" by blast
  from Suc obtain ps k3 where ps: "randn_pairs rnd k2 n = Some (ps, k3)" "length ps = n"
    by blast
  show ?case by (simp add: x e ps)
qed

lemma gen_loop_pairs:
  assumes "i \<le> n"
  shows "gen_loop rnd rho s n i xs ys k =
         (case randn_pairs rnd k (n - i) of
            None \<Rightarrow> None
          | Some (ps, k') \<Rightarrow>
              Some ((xs @ map fst ps,
                     ys @ map (\<lambda>(x, e). jadd (jmul rho x) (jmul s e)) ps), k'))"
  using assms
proof (induction "n - i" arbitrary: i xs ys k)
  case 0
  then have "\<not> i < n" "n - i = 0" by simp_all
  then show ?case by (subst gen_loop.simps) simp
next
  case (Suc d)
  then have lt: "i < n" and d: "d = n - Suc i" and le: "Suc i \<le> n" and ni: "n - i = Suc d"
    by simp_all
  show ?case
    by (subst gen_loop.simps)
       (simp add: lt ni Let_def Suc.hyps(1) [OF d le] d [symmetric]
             split: option.splits prod.splits)
qed

lemma randn_finite:
  assumes range: "\<forall>j. 0 \<le> rnd j \<and> rnd j < 1" and nz: "\<forall>k. \<exists>j\<ge>k. rnd j \<noteq> 0"
  shows "\<exists>z k'. randn rnd k = Some (Num z, k')"
proof -
  from nz have "\<exists>j\<ge>k. rnd j \<noteq> 0" by blast
  from draw_returns [OF this] obtain i where i: "rnd i \<noteq> 0"
    "draw_while_zero rnd 0 k = Some (rnd i, Suc i)" by blast
  from nz have "\<exists>j\<ge>Suc i. rnd j \<noteq> 0" by blast
  from draw_returns [OF this] obtain j where
    j: "draw_while_zero rnd 0 (Suc i) = Some (rnd j, Suc j)" by blast
  from range i(1) have "0 < rnd i" "rnd i < 1" by (simp_all add: less_le)
  from randn_value [OF i(2) j this] show ?thesis by blast
qed

lemma randn_pairs_finite:
  assumes range: "\<forall>j. 0 \<le> rnd j \<and> rnd j < 1" and nz: "\<forall>k. \<exists>j\<ge>k. rnd j \<noteq> 0"
    and "randn_pairs rnd k n = Some (ps, k')"
  shows "\<forall>p\<in>set ps. \<exists>x e. p = (Num x, Num e)"
  using assms(3)
proof (induction n arbitrary: k ps)
  case 0
  then show ?case by simp
next
  case (Suc n)
  from randn_finite [OF range nz] obtain x k1 where x: "randn rnd k = Some (Num x, k1)"
    by blast
  from randn_finite [OF range nz] obtain e k2 where e: "randn rnd k1 = Some (Num e, k2)"
    by blast
  from Suc.prems obtain qs where qs: "randn_pairs rnd k2 n = Some (qs, k')"
    and ps: "ps = (Num x, Num e) # qs"
    by (auto simp: x e split: option.splits)
  from Suc.IH [OF qs] show ?case unfolding ps by simp
qed

text \<open>
  Claim C9. Let nonzero draws keep coming. Then \<open>generateBivariateNormal\<close> returns two
  arrays of length \<open>n\<close>. With \<open>(x, e)\<close> the successive pairs of results of \<open>randn\<close>, the
  \<open>i\<close>-th element of \<open>xs\<close> is the \<open>i\<close>-th \<open>x\<close> and the \<open>i\<close>-th element of \<open>ys\<close> is
  \<open>rho * x + sqrt (1 - rho * rho) * e\<close> in JavaScript arithmetic; for \<open>rho\<^sup>2 \<le> 1\<close> and finite
  draws that is the real number \<open>rho x + sqrt (1 - rho\<^sup>2) e\<close>. The draws are finite when
  \<open>Math.random\<close> stays in \<open>[0, 1)\<close>.
\<close>

theorem generateBivariateNormal_sample:
  assumes nz: "\<forall>k. \<exists>j\<ge>k. rnd j \<noteq> 0"
  shows "\<exists>xs ys ps k'.
      generateBivariateNormal rnd k n rho = Some ((xs, ys), k')
      \<and> randn_pairs rnd k n = Some (ps, k')
      \<and> length xs = n \<and> length ys = n \<and> length ps = n
      \<and> (\<forall>i<n. xs ! i = fst (ps ! i)
            \<and> ys ! i = jadd (jmul rho (xs ! i))
                          (jmul (jsqrt (jsub (Num 1) (jmul rho rho))) (snd (ps ! i))))
      \<and> (\<forall>i<n. \<forall>r x e. rho = Num r \<and> r\<^sup>2 \<le> 1 \<and> ps ! i = (Num x, Num e)
            \<longrightarrow> ys ! i = Num (r * x + sqrt (1 - r\<^sup>2) * e))
      \<and> ((\<forall>j. 0 \<le> rnd j \<and> rnd j < 1) \<longrightarrow> (\<forall>i<n. \<exists>x e. ps ! i = (Num x, Num e)))"
proof -
  let ?s = "jsqrt (jsub (Num 1) (jmul rho rho))"
  let ?f = "\<lambda>(x, e). jadd (jmul rho x) (jmul ?s e)"
  from randn_pairs_returns [OF nz] obtain ps k' where
    ps: "randn_pairs rnd k n = Some (ps, k')" and len: "length ps = n" by blast
  have gen: "generateBivariateNormal rnd k n rho = Some ((map fst ps, map ?f ps), k')"
    by (simp add: generateBivariateNormal_def Let_def gen_loop_pairs ps)
  have nth: "map fst ps ! i = fst (ps ! i)
             \<and> map ?f ps ! i = jadd (jmul rho (map fst ps ! i)) (jmul ?s (snd (ps ! i)))"
    if "i < n" for i
    using that len by (simp add: case_prod_beta)
  have real_form: "map ?f ps ! i = Num (r * x + sqrt (1 - r\<^sup>2) * e)"
    if "i < n" "rho = Num r" "r\<^sup>2 \<le> 1" "ps ! i = (Num x, Num e)" for i r x e
  proof -
    have "\<not> 1 - r * r < 0" using that(3) by (simp add: power2_eq_square)
    then show ?thesis
      using that len by (simp add: jsub_def power2_eq_square)
  qed
  have fin: "\<exists>x e. ps ! i = (Num x, Num e)"
    if "\<forall>j. 0 \<le> rnd j \<and> rnd j < 1" "i < n" for i
  proof -
    from that(2) len have "ps ! i \<in> set ps" by simp
    with randn_pairs_finite [OF that(1) nz ps] show ?thesis by blast
  qed
  have L: "length (map fst ps) = n" "length (map ?f ps) = n"
    using len by simp_all
  have A: "\<forall>i<n. map fst ps ! i = fst (ps ! i)
            \<and> map ?f ps ! i = jadd (jmul rho (map fst ps ! i)) (jmul ?s (snd (ps ! i)))"
    using nth by blast
  have B: "\<forall>i<n. \<forall>r x e. rho = Num r \<and> r\<^sup>2 \<le> 1 \<and> ps ! i = (Num x, Num e)
            \<longrightarrow> map ?f ps ! i = Num (r * x + sqrt (1 - r\<^sup>2) * e)"
    using real_form by blast
  have C: "(\<forall>j. 0 \<le> rnd j \<and> rnd j < 1) \<longrightarrow> (\<forall>i<n. \<exists>x e. ps ! i = (Num x, Num e))"
    using fin by blast
  show ?thesis
    by (rule exI [of _ "map fst ps"], rule exI [of _ "map ?f ps"],
        rule exI [of _ ps], rule exI [of _ k'])
       (intro conjI gen ps L len A B C)
qed

lemma list_of_two:
  assumes "length xs = 2"
  shows "xs = [xs ! 0, xs ! 1]"
  using assms by (intro nth_equalityI) (auto simp: less_Suc_eq numeral_2_eq_2)

text \<open>All draws \<open>1/2\<close>, two observations, \<open>rho = 3/5\<close>.\<close>

theorem generateBivariateNormal_sample_witness:
  "generateBivariateNormal (\<lambda>j. 1 / 2) 0 2 (Num (3 / 5))
   = Some (([Num (sqrt (- 2 * ln (1 / 2)) * cos (2 * pi * (1 / 2))),
             Num (sqrt (- 2 * ln (1 / 2)) * cos (2 * pi * (1 / 2)))],
            [Num (3 / 5 * (sqrt (- 2 * ln (1 / 2)) * cos (2 * pi * (1 / 2)))
                  + 4 / 5 * (sqrt (- 2 * ln (1 / 2)) * cos (2 * pi * (1 / 2)))),
             Num (3 / 5 * (sqrt (- 2 * ln (1 / 2)) * cos (2 * pi * (1 / 2)))
                  + 4 / 5 * (sqrt (- 2 * ln (1 / 2)) * cos (2 * pi * (1 / 2))))]), 8)"
proof -
  let ?r = "\<lambda>j::nat. 1 / 2 :: real"
  let ?z = "sqrt (- 2 * ln (1 / 2)) * cos (2 * pi * (1 / 2)) :: real"
  have nz: "\<forall>k. \<exists>j\<ge>k. ?r j \<noteq> 0" by auto
  have rn: "randn ?r k = Some (Num ?z, Suc (Suc k))" for k
    by (rule randn_value [where u = "1 / 2" and ?k1.0 = "Suc k"])
       (simp_all add: draw_hit [of ?r])
  have rp: "randn_pairs ?r 0 2 = Some ([(Num ?z, Num ?z), (Num ?z, Num ?z)], 8)"
    by (simp add: rn numeral_2_eq_2)
  have root: "sqrt (1 - (3 / 5)\<^sup>2) = (4 / 5 :: real)"
    by (rule real_sqrt_unique) (simp_all add: power2_eq_square)
  from generateBivariateNormal_sample [OF nz, of 0 2 "Num (3 / 5)"]
  obtain xs ys ps k' where
    gen: "generateBivariateNormal ?r 0 2 (Num (3 / 5)) = Some ((xs, ys), k')"
    and ps: "randn_pairs ?r 0 2 = Some (ps, k')"
    and len: "length xs = 2" "length ys = 2"
    and A: "\<forall>i<2. xs ! i = fst (ps ! i)
            \<and> ys ! i = jadd (jmul (Num (3 / 5)) (xs ! i))
                (jmul (jsqrt (jsub (Num 1) (jmul (Num (3 / 5)) (Num (3 / 5))))) (snd (ps ! i)))"
    and B: "\<forall>i<2. \<forall>r x e. Num (3 / 5) = Num r \<and> r\<^sup>2 \<le> 1 \<and> ps ! i = (Num x, Num e)
            \<longrightarrow> ys ! i = Num (r * x + sqrt (1 - r\<^sup>2) * e)"
    by blast
  from ps rp have pk: "ps = [(Num ?z, Num ?z), (Num ?z, Num ?z)]" "k' = 8" by simp_all
  have x0: "xs ! 0 = Num ?z" and x1: "xs ! 1 = Num ?z"
    using A pk(1) by simp_all
  have sq: "((3 / 5)::real)\<^sup>2 \<le> 1" by (simp add: power2_eq_square)
  have yi: "ys ! i = Num (3 / 5 * ?z + 4 / 5 * ?z)" if "i < 2" for i
  proof -
    have "ps ! i = (Num ?z, Num ?z)"
      using that pk(1) by (auto simp: less_Suc_eq numeral_2_eq_2)
    with sq have "Num (3 / 5) = Num (3 / 5) \<and> ((3 / 5)::real)\<^sup>2 \<le> 1
                  \<and> ps ! i = (Num ?z, Num ?z)" by simp
    with B [rule_format, OF that, of "3 / 5" ?z ?z]
    have "ys ! i = Num (3 / 5 * ?z + sqrt (1 - (3 / 5)\<^sup>2) * ?z)" .
    then show ?thesis by (simp only: root)
  qed
  have y0: "ys ! 0 = Num (3 / 5 * ?z + 4 / 5 * ?z)"
    and y1: "ys ! 1 = Num (3 / 5 * ?z + 4 / 5 * ?z)"
    by (rule yi, simp)+
  have "xs = [Num ?z, Num ?z]"
    using list_of_two [OF len(1)] x0 x1 by simp
  moreover have "ys = [Num (3 / 5 * ?z + 4 / 5 * ?z), Num (3 / 5 * ?z + 4 / 5 * ?z)]"
    using list_of_two [OF len(2)] y0 y1 by simp
  ultimately show ?thesis using gen pk(2) by simp
qed

section \<open>Properties of the correlation engine\<close>

subsection \<open>Arrays of finite numbers\<close>

lemma aget_Num: "i < length xs \<Longrightarrow> aget (map Num xs) i = Num (xs ! i)"
  by (simp add: aget_def)

lemma foldl_jadd_Num:
  assumes "\<And>x. x \<in> set xs \<Longrightarrow> f (Num x) = Num (g x)"
  shows "foldl (\<lambda>s v. jadd s (f v)) (Num a) (map Num xs) = Num (a + (\<Sum>x\<leftarrow>xs. g x))"
  using assms by (induction xs arbitrary: a) (simp_all add: add.assoc)

subsection \<open>Pearson's r\<close>

lemma mean_Num: "xs \<noteq> [] \<Longrightarrow> mean (map Num xs) = Num (sample_mean xs)"
  unfolding mean_def sample_mean_def
  using foldl_jadd_Num [of xs "\<lambda>v. v" "\<lambda>r. r" 0] by simp

lemma sum_squares_nonneg: "0 \<le> (\<Sum>x\<leftarrow>xs. (x - m)\<^sup>2)" for m :: real
  by (induction xs) simp_all

lemma sample_var_nonneg: "2 \<le> length xs \<Longrightarrow> 0 \<le> sample_var xs"
  unfolding sample_var_def by (intro divide_nonneg_nonneg sum_squares_nonneg) simp

lemma sd_Num:
  assumes "2 \<le> length xs"
  shows "sd (map Num xs) = Num (sample_sd xs)"
proof -
  have ne: "xs \<noteq> []" using assms by auto
  have dev: "foldl (\<lambda>s x. jadd s (jsquare (jsub x (Num (sample_mean xs))))) (Num 0) (map Num xs)
             = Num (0 + (\<Sum>x\<leftarrow>xs. (x - sample_mean xs)\<^sup>2))"
    by (rule foldl_jadd_Num) (simp add: jsquare_def jsub_def power2_eq_square)
  have nz: "real (length xs) - 1 \<noteq> 0" using assms by simp
  show ?thesis
    using sample_var_nonneg [OF assms] nz
    by (simp add: sd_def Let_def mean_Num [OF ne] dev sample_sd_def sample_var_def)
qed

lemma foldl_cov_Num:
  assumes "n \<le> length xs" "n \<le> length ys"
  shows "foldl (\<lambda>cov i. jadd cov (jmul (jsub (aget (map Num xs) i) (Num mx))
                                      (jsub (aget (map Num ys) i) (Num my))))
           (Num a) [0..<n]
         = Num (a + (\<Sum>(x, y)\<leftarrow>zip (take n xs) (take n ys). (x - mx) * (y - my)))"
  using assms
proof (induction n)
  case 0
  show ?case by simp
next
  case (Suc n)
  then have n: "n < length xs" "n < length ys" by simp_all
  have "zip (take (Suc n) xs) (take (Suc n) ys)
        = zip (take n xs) (take n ys) @ [(xs ! n, ys ! n)]"
    using n by (simp add: take_Suc_conv_app_nth)
  with Suc n show ?case
    by (simp add: aget_Num jsub_def add.assoc)
qed

text \<open>On two samples of the same length \<open>n \<ge> 2\<close> the quotient is taken of these two numbers.\<close>

lemma pearsonr_Num:
  assumes "length ys = length xs" "2 \<le> length xs"
  shows "pearsonr (map Num xs) (map Num ys)
         = jdiv (Num (sample_cov xs ys)) (Num (sample_sd xs * sample_sd ys))"
proof -
  have ne: "xs \<noteq> []" "ys \<noteq> []" and two: "2 \<le> length xs" "2 \<le> length ys"
    using assms by auto
  have cov: "foldl (\<lambda>cov i. jadd cov (jmul (jsub (aget (map Num xs) i) (Num (sample_mean xs)))
                                      (jsub (aget (map Num ys) i) (Num (sample_mean ys)))))
           (Num 0) [0..<length (map Num xs)]
         = Num (\<Sum>(x, y)\<leftarrow>zip xs ys. (x - sample_mean xs) * (y - sample_mean ys))"
    using foldl_cov_Num [of "length xs" xs ys "sample_mean xs" "sample_mean ys" 0] assms
    by simp
  have nz: "real (length xs) - 1 \<noteq> 0" using two by simp
  show ?thesis
    unfolding pearsonr_def Let_def mean_Num [OF ne(1)] mean_Num [OF ne(2)] cov
      sd_Num [OF two(1)] sd_Num [OF two(2)]
    using nz by (simp add: sample_cov_def)
qed

text \<open>
  Claim C3. On two samples of the same length \<open>n \<ge> 2\<close>, each of nonzero sample variance,
  \<open>pearsonr\<close> is the sample covariance over the product of the two sample standard
  deviations, all three with the divisor \<open>n - 1\<close> and with the deviations taken from the
  means computed beforehand.
\<close>

theorem pearsonr_formula:
  assumes "length xs = n" and "length ys = n" and "2 \<le> n"
    and "sample_var xs \<noteq> 0" and "sample_var ys \<noteq> 0"
  shows "pearsonr (map Num xs) (map Num ys)
         = Num (sample_cov xs ys / (sample_sd xs * sample_sd ys))"
proof -
  have "sample_sd xs * sample_sd ys \<noteq> 0"
    using assms(4,5) by (simp add: sample_sd_def)
  moreover have "length ys = length xs" "2 \<le> length xs"
    using assms by simp_all
  ultimately show ?thesis
    by (simp add: pearsonr_Num)
qed

text \<open>The sample \<open>x = (1, 2, 3)\<close>, \<open>y = (1, 3, 2)\<close>: covariance \<open>1/2\<close>, both deviations \<open>1\<close>.\<close>

theorem pearsonr_formula_witness:
  "pearsonr [Num 1, Num 2, Num 3] [Num 1, Num 3, Num 2] = Num (1 / 2)"
  using pearsonr_formula [of "[1, 2, 3]" 3 "[1, 3, 2]"]
  by (simp add: sample_var_def sample_mean_def sample_cov_def sample_sd_def)

subsection \<open>The rank transform\<close>

text \<open>The mean of \<open>k\<close> consecutive ranks above \<open>l\<close> is \<open>l + (k + 1) / 2\<close>.\<close>

lemma sum_consecutive:
  "(\<Sum>r\<leftarrow>[l + 1..<l + k + 1]. real r) = real k * real l + real k * (real k + 1) / 2"
  by (induction k) (simp_all add: algebra_simps)

lemma midrank_closed:
  assumes "v \<in> set xs"
  shows "midrank xs v
         = real (length (filter (\<lambda>u. u < v) xs))
           + (real (length (filter (\<lambda>u. u = v) xs)) + 1) / 2"
proof -
  from assms have "filter (\<lambda>u. u = v) xs \<noteq> []"
    by (simp add: filter_empty_conv)
  then have "real (length (filter (\<lambda>u. u = v) xs)) \<noteq> 0" by simp
  then show ?thesis
    unfolding midrank_def Let_def sum_consecutive by (simp add: field_simps)
qed

text \<open>
  In a sorted list, a maximal run of one value from position \<open>i\<close> to position \<open>e\<close> has
  \<open>i\<close> smaller values before it and consists of \<open>e + 1 - i\<close> equal values.
\<close>

lemma run_counts:
  fixes vs :: "real list"
  assumes srt: "sorted vs" and ie: "i \<le> e" and en: "e < length vs"
    and start: "i = 0 \<or> vs ! (i - 1) < vs ! i"
    and run: "\<forall>k. i \<le> k \<and> k \<le> e \<longrightarrow> vs ! k = vs ! i"
    and stop: "e + 1 < length vs \<longrightarrow> vs ! (e + 1) \<noteq> vs ! i"
  shows "length (filter (\<lambda>u. u < vs ! i) vs) = i"
    and "length (filter (\<lambda>u. u = vs ! i) vs) = e + 1 - i"
proof -
  let ?v = "vs ! i"
  let ?a = "take i vs" and ?b = "take (e + 1 - i) (drop i vs)" and ?c = "drop (e + 1) vs"
  have split: "vs = ?a @ ?b @ ?c"
  proof -
    have "drop i vs = ?b @ drop (e + 1 - i) (drop i vs)"
      by (simp only: append_take_drop_id)
    also have "drop (e + 1 - i) (drop i vs) = ?c" using ie by simp
    finally have "drop i vs = ?b @ ?c" .
    then have "?a @ drop i vs = ?a @ ?b @ ?c" by simp
    then show ?thesis by simp
  qed
  have a: "\<forall>u \<in> set ?a. u < ?v"
  proof
    fix u assume "u \<in> set ?a"
    then obtain k where k: "k < i" "k < length vs" "u = vs ! k"
      by (auto simp: in_set_conv_nth)
    from k start have pos: "0 < i" "vs ! (i - 1) < ?v" by auto
    from k srt en ie have "vs ! k \<le> vs ! (i - 1)"
      by (intro sorted_nth_mono) auto
    with pos k show "u < ?v" by simp
  qed
  have b: "\<forall>u \<in> set ?b. u = ?v"
  proof
    fix u assume "u \<in> set ?b"
    then obtain k where k: "k < e + 1 - i" "u = drop i vs ! k"
      by (auto simp: in_set_conv_nth)
    with en ie have u: "u = vs ! (i + k)" by simp
    from k have "i \<le> i + k \<and> i + k \<le> e" by simp
    with run have "vs ! (i + k) = ?v" by blast
    with u show "u = ?v" by simp
  qed
  have c: "\<forall>u \<in> set ?c. ?v < u"
  proof
    fix u assume "u \<in> set ?c"
    then obtain k where k: "k < length vs - (e + 1)" "u = vs ! (e + 1 + k)"
      by (auto simp: in_set_conv_nth)
    then have lt: "e + 1 < length vs" by simp
    with stop have ne: "vs ! (e + 1) \<noteq> ?v" by simp
    from srt lt ie have "?v \<le> vs ! (e + 1)" by (intro sorted_nth_mono) auto
    with ne have "?v < vs ! (e + 1)" by simp
    also from srt k have "vs ! (e + 1) \<le> vs ! (e + 1 + k)"
      by (intro sorted_nth_mono) auto
    finally show "?v < u" using k by simp
  qed
  have la: "length ?a = i" and lb: "length ?b = e + 1 - i"
    using en ie by auto
  have "filter (\<lambda>u. u < ?v) vs = filter (\<lambda>u. u < ?v) ?a @ filter (\<lambda>u. u < ?v) ?b
          @ filter (\<lambda>u. u < ?v) ?c"
    by (subst split) simp
  also have "filter (\<lambda>u. u < ?v) ?a = ?a" using a by simp
  also have "filter (\<lambda>u. u < ?v) ?b = []" using b by (simp add: filter_empty_conv)
  also have "filter (\<lambda>u. u < ?v) ?c = []" using c by (force simp: filter_empty_conv)
  finally show "length (filter (\<lambda>u. u < ?v) vs) = i" using la by simp
  have "filter (\<lambda>u. u = ?v) vs = filter (\<lambda>u. u = ?v) ?a @ filter (\<lambda>u. u = ?v) ?b
          @ filter (\<lambda>u. u = ?v) ?c"
    by (subst split) simp
  also have "filter (\<lambda>u. u = ?v) ?a = []" using a by (force simp: filter_empty_conv)
  also have "filter (\<lambda>u. u = ?v) ?b = ?b" using b by simp
  also have "filter (\<lambda>u. u = ?v) ?c = []" using c by (force simp: filter_empty_conv)
  finally show "length (filter (\<lambda>u. u = ?v) vs) = e + 1 - i" using lb by simp
qed



text \<open>On pairs with finite values the comparator sort is the stable sort by value.\<close>

lemma insert_by_Num:
  "insert_by (\<lambda>a b. jsub (fst a) (fst b)) (apfst Num q) (map (apfst Num) qs)
   = map (apfst Num) (insort_key fst q qs)"
  by (induction qs) (auto simp: jsub_def jgt_def)

lemma array_sort_Num:
  "array_sort (\<lambda>a b. jsub (fst a) (fst b)) (map (apfst Num) qs)
   = map (apfst Num) (sort_key fst qs)"
  by (induction qs) (simp_all add: array_sort_def insert_by_Num)

lemma zip_map_Num: "zip (map Num xs) is = map (apfst Num) (zip xs is)"
  by (simp add: zip_map1 apfst_def map_prod_def)

text \<open>The inner loop stops at the last position of the run it starts in.\<close>

lemma tie_end_step:
  assumes "i < length S" "j < length S"
  shows "tie_end (map (apfst Num) S) i j =
         (if j + 1 < length S \<and> fst (S ! (j + 1)) = fst (S ! i)
          then tie_end (map (apfst Num) S) i (j + 1) else j)"
  using assms by (subst tie_end.simps) (auto simp: jseq_def)

lemma tie_end_run:
  assumes "i \<le> j" "j < length S" "\<forall>k. i \<le> k \<and> k \<le> j \<longrightarrow> fst (S ! k) = fst (S ! i)"
  shows "tie_end (map (apfst Num) S) i j < length S
         \<and> (\<forall>k. i \<le> k \<and> k \<le> tie_end (map (apfst Num) S) i j \<longrightarrow> fst (S ! k) = fst (S ! i))
         \<and> (tie_end (map (apfst Num) S) i j + 1 < length S
              \<longrightarrow> fst (S ! (tie_end (map (apfst Num) S) i j + 1)) \<noteq> fst (S ! i))"
  using assms
proof (induction "length S - j" arbitrary: j)
  case 0
  from "0.hyps" "0.prems"(2) show ?case by simp
next
  case (Suc d)
  from Suc.prems(1,2) have i: "i < length S" by simp
  note step = tie_end_step [OF i Suc.prems(2)]
  show ?case
  proof (cases "j + 1 < length S \<and> fst (S ! (j + 1)) = fst (S ! i)")
    case True
    have d: "d = length S - (j + 1)" using Suc.hyps(2) by simp
    have le: "i \<le> j + 1" using Suc.prems(1) by simp
    have lt: "j + 1 < length S" using True by simp
    have run: "\<forall>k. i \<le> k \<and> k \<le> j + 1 \<longrightarrow> fst (S ! k) = fst (S ! i)"
    proof (intro allI impI)
      fix k assume k: "i \<le> k \<and> k \<le> j + 1"
      show "fst (S ! k) = fst (S ! i)"
      proof (cases "k = j + 1")
        case True
        with \<open>j + 1 < length S \<and> fst (S ! (j + 1)) = fst (S ! i)\<close> show ?thesis by simp
      next
        case False
        with k have "i \<le> k \<and> k \<le> j" by simp
        with Suc.prems(3) show ?thesis by blast
      qed
    qed
    have eq: "tie_end (map (apfst Num) S) i j = tie_end (map (apfst Num) S) i (j + 1)"
      by (subst step) (use True in auto)
    show ?thesis
      unfolding eq by (rule Suc.hyps(1) [OF d le lt run])
  next
    case False
    have eq: "tie_end (map (apfst Num) S) i j = j"
      by (subst step) (use False in auto)
    show ?thesis
      unfolding eq using Suc.prems(2,3) False by blast
  qed
qed




text \<open>The \<open>for\<close> loop writes one value at the listed indices and nowhere else.\<close>

lemma foldl_update:
  "length (foldl (\<lambda>r k. r[f k := a]) r ks) = length r"
  "p < length r \<Longrightarrow> foldl (\<lambda>r k. r[f k := a]) r ks ! p = (if p \<in> f ` set ks then a else r ! p)"
  by (induction ks arbitrary: r) (auto simp: nth_list_update)

lemma set_drop_nth: "set (drop i xs) = {xs ! k | k. i \<le> k \<and> k < length xs}"
proof -
  have "set (drop i xs) = {drop i xs ! k | k. k < length xs - i}"
    by (auto simp: in_set_conv_nth)
  also have "\<dots> = {xs ! k | k. i \<le> k \<and> k < length xs}"
  proof (intro set_eqI iffI)
    fix x assume "x \<in> {drop i xs ! k | k. k < length xs - i}"
    then obtain k where "k < length xs - i" "x = drop i xs ! k" by blast
    then have "i \<le> i + k \<and> i + k < length xs \<and> x = xs ! (i + k)" by simp
    then show "x \<in> {xs ! k | k. i \<le> k \<and> k < length xs}" by blast
  next
    fix x assume "x \<in> {xs ! k | k. i \<le> k \<and> k < length xs}"
    then obtain k where k: "i \<le> k" "k < length xs" "x = xs ! k" by blast
    then have "k - i < length xs - i \<and> x = drop i xs ! (k - i)" by simp
    then show "x \<in> {drop i xs ! k | k. k < length xs - i}" by blast
  qed
  finally show ?thesis .
qed

lemma run_midrank:
  fixes vs :: "real list"
  assumes "sorted vs" "i \<le> e" "e < length vs"
    and "i = 0 \<or> vs ! (i - 1) < vs ! i"
    and "\<forall>k. i \<le> k \<and> k \<le> e \<longrightarrow> vs ! k = vs ! i"
    and "e + 1 < length vs \<longrightarrow> vs ! (e + 1) \<noteq> vs ! i"
  shows "midrank vs (vs ! i) = (real i + real e + 2) / 2"
proof -
  have mem: "vs ! i \<in> set vs" using assms(2,3) by simp
  have "real (e + 1 - i) = real e + 1 - real i" using assms(2) by simp
  then show ?thesis
    unfolding midrank_closed [OF mem] run_counts [OF assms]
    by (simp add: field_simps)
qed


text \<open>
  The invariant of the outer loop: started at the beginning of a run, with the pairs
  sorted by value and their original indices distinct, it writes the mid-rank of every
  remaining pair at its original index and leaves the other positions as they are.
\<close>

lemma rank_loop_step:
  assumes "i < length S"
  shows "rank_loop (map (apfst Num) S) i ranks =
         rank_loop (map (apfst Num) S) (tie_end (map (apfst Num) S) i i + 1)
           (foldl (\<lambda>r k. r[snd (map (apfst Num) S ! k)
                     := Num ((real i + real (tie_end (map (apfst Num) S) i i) + 2) / 2)])
              ranks [i..<Suc (tie_end (map (apfst Num) S) i i)])"
  using assms by (subst rank_loop.simps) (simp add: Let_def)

lemma rank_loop_done:
  assumes "\<not> i < length S"
  shows "rank_loop (map (apfst Num) S) i ranks = ranks"
  using assms by (subst rank_loop.simps) simp


lemma rank_loop_correct:
  fixes S :: "(real \<times> nat) list"
  assumes srt: "sorted (map fst S)" and dist: "distinct (map snd S)"
    and bnd: "\<forall>k<length S. snd (S ! k) < length ranks"
    and il: "i \<le> length S"
    and start: "i = 0 \<or> i = length S \<or> fst (S ! (i - 1)) < fst (S ! i)"
  shows "length (rank_loop (map (apfst Num) S) i ranks) = length ranks
    \<and> (\<forall>k. i \<le> k \<and> k < length S \<longrightarrow>
          rank_loop (map (apfst Num) S) i ranks ! snd (S ! k)
          = Num (midrank (map fst S) (fst (S ! k))))
    \<and> (\<forall>p. p < length ranks \<and> p \<notin> snd ` set (drop i S) \<longrightarrow>
          rank_loop (map (apfst Num) S) i ranks ! p = ranks ! p)"
  using bnd il start
proof (induction "length S - i" arbitrary: i ranks rule: less_induct)
  case less
  let ?P = "map (apfst Num) S"
  let ?vs = "map fst S"
  show ?case
  proof (cases "i < length S")
    case False
    have fin: "rank_loop ?P i ranks = ranks" by (rule rank_loop_done [OF False])
    from False show ?thesis unfolding fin by auto
  next
    case True
    define e where "e = tie_end ?P i i"
    define a where "a = (real i + real e + 2) / 2"
    define r1 where "r1 = foldl (\<lambda>r k. r[snd (?P ! k) := Num a]) ranks [i..<Suc e]"
    have ie: "i \<le> e" unfolding e_def by (rule tie_end_ge)
    have "\<forall>k. i \<le> k \<and> k \<le> i \<longrightarrow> fst (S ! k) = fst (S ! i)"
    proof (intro allI impI)
      fix k assume "i \<le> k \<and> k \<le> i"
      then have "k = i" by simp
      then show "fst (S ! k) = fst (S ! i)" by (simp only:)
    qed
    from tie_end_run [OF le_refl True this]
    have en: "e < length S"
      and run: "\<forall>k. i \<le> k \<and> k \<le> e \<longrightarrow> fst (S ! k) = fst (S ! i)"
      and stop: "e + 1 < length S \<longrightarrow> fst (S ! (e + 1)) \<noteq> fst (S ! i)"
      unfolding e_def by blast+
    have step: "rank_loop ?P i ranks = rank_loop ?P (e + 1) r1"
      unfolding e_def r1_def a_def by (rule rank_loop_step [OF True])
    have len1: "length r1 = length ranks"
      unfolding r1_def by (rule foldl_update(1))
    have r1_nth: "r1 ! p = (if p \<in> (\<lambda>k. snd (S ! k)) ` {i..e} then Num a else ranks ! p)"
      if "p < length ranks" for p
    proof -
      have img: "(\<lambda>k. snd (?P ! k)) ` set [i..<Suc e] = (\<lambda>k. snd (S ! k)) ` {i..e}"
      proof (rule image_cong)
        show "set [i..<Suc e] = {i..e}" by auto
      next
        fix k assume "k \<in> {i..e}"
        with en have "k < length S" by simp
        then show "snd (?P ! k) = snd (S ! k)" by simp
      qed
      show ?thesis
        unfolding r1_def foldl_update(2) [OF that] img ..
    qed
    have vs_nth: "?vs ! k = fst (S ! k)" if "k < length S" for k
      using that by simp
    have mid: "midrank ?vs (fst (S ! k)) = a" if k: "i \<le> k" "k \<le> e" for k
    proof -
      have ki: "fst (S ! k) = fst (S ! i)" using run k by blast
      have st: "i = 0 \<or> ?vs ! (i - 1) < ?vs ! i"
      proof (cases "i = 0")
        case True
        then show ?thesis by simp
      next
        case False
        with less.prems(3) \<open>i < length S\<close> have "fst (S ! (i - 1)) < fst (S ! i)" by simp
        moreover have "i - 1 < length S" using \<open>i < length S\<close> by simp
        ultimately show ?thesis using \<open>i < length S\<close> by simp
      qed
      have rn: "\<forall>k. i \<le> k \<and> k \<le> e \<longrightarrow> ?vs ! k = ?vs ! i"
      proof (intro allI impI)
        fix k assume k: "i \<le> k \<and> k \<le> e"
        with en have "k < length S" by simp
        moreover from k run have "fst (S ! k) = fst (S ! i)" by blast
        ultimately show "?vs ! k = ?vs ! i" using \<open>i < length S\<close> by simp
      qed
      have sp: "e + 1 < length ?vs \<longrightarrow> ?vs ! (e + 1) \<noteq> ?vs ! i"
        using stop \<open>i < length S\<close> by simp
      have "e < length ?vs" using en by simp
      from run_midrank [OF srt ie this st rn sp]
      have "midrank ?vs (?vs ! i) = a" unfolding a_def .
      then show ?thesis using ki \<open>i < length S\<close> by simp
    qed
    have bnd1: "\<forall>k<length S. snd (S ! k) < length r1"
      using less.prems(1) len1 by simp
    have il1: "e + 1 \<le> length S" using en by simp
    have start1: "e + 1 = 0 \<or> e + 1 = length S \<or> fst (S ! (e + 1 - 1)) < fst (S ! (e + 1))"
    proof (cases "e + 1 = length S")
      case True
      then show ?thesis by simp
    next
      case False
      with en have lt: "e + 1 < length S" by simp
      with stop have ne: "fst (S ! (e + 1)) \<noteq> fst (S ! i)" by simp
      have "fst (S ! e) = fst (S ! i)" using run ie by blast
      moreover have "?vs ! e \<le> ?vs ! (e + 1)"
        using srt lt by (intro sorted_nth_mono) simp_all
      ultimately have "fst (S ! e) < fst (S ! (e + 1))"
        using ne lt by simp
      then show ?thesis by simp
    qed
    have dec: "length S - (e + 1) < length S - i" using True ie by simp
    note IH = less.hyps [OF dec bnd1 il1 start1]
    from IH have IH_len: "length (rank_loop ?P (e + 1) r1) = length r1" by blast
    from IH have IH_rank: "rank_loop ?P (e + 1) r1 ! snd (S ! k)
          = Num (midrank ?vs (fst (S ! k)))" if "e + 1 \<le> k" "k < length S" for k
      using that by blast
    from IH have IH_keep: "rank_loop ?P (e + 1) r1 ! p = r1 ! p"
      if "p < length r1" "p \<notin> snd ` set (drop (e + 1) S)" for p
      using that by blast
    have inj: "snd (S ! k) \<noteq> snd (S ! k')" if "k < length S" "k' < length S" "k \<noteq> k'" for k k'
    proof -
      from dist that have "map snd S ! k \<noteq> map snd S ! k'"
        unfolding distinct_conv_nth by simp
      with that show ?thesis by simp
    qed
    have part1: "length (rank_loop ?P i ranks) = length ranks"
      unfolding step using IH_len len1 by simp
    have part2: "rank_loop ?P i ranks ! snd (S ! k) = Num (midrank ?vs (fst (S ! k)))"
      if k: "i \<le> k" "k < length S" for k
    proof (cases "e + 1 \<le> k")
      case True
      then show ?thesis unfolding step by (rule IH_rank [OF _ k(2)])
    next
      case False
      then have ke: "k \<le> e" by simp
      have pl: "snd (S ! k) < length ranks" using less.prems(1) k(2) by blast
      have "snd (S ! k) \<notin> snd ` set (drop (e + 1) S)"
      proof
        assume "snd (S ! k) \<in> snd ` set (drop (e + 1) S)"
        then obtain k' where k': "e + 1 \<le> k'" "k' < length S" "snd (S ! k) = snd (S ! k')"
          unfolding set_drop_nth by auto
        with ke have "k \<noteq> k'" by simp
        from inj [OF k(2) k'(2) this] k'(3) show False by simp
      qed
      with pl len1 have "rank_loop ?P (e + 1) r1 ! snd (S ! k) = r1 ! snd (S ! k)"
        by (intro IH_keep) simp_all
      also have "\<dots> = Num a"
        using r1_nth [OF pl] k(1) ke by auto
      also have "a = midrank ?vs (fst (S ! k))"
        using mid [OF k(1) ke] by simp
      finally show ?thesis unfolding step .
    qed
    have part3: "rank_loop ?P i ranks ! p = ranks ! p"
      if p: "p < length ranks" "p \<notin> snd ` set (drop i S)" for p
    proof -
      have sub: "set (drop (e + 1) S) \<subseteq> set (drop i S)"
        using ie by (intro set_drop_subset_set_drop) simp
      with p have "p \<notin> snd ` set (drop (e + 1) S)" by blast
      with p len1 have "rank_loop ?P (e + 1) r1 ! p = r1 ! p"
        by (intro IH_keep) simp_all
      also have "p \<notin> (\<lambda>k. snd (S ! k)) ` {i..e}"
      proof
        assume "p \<in> (\<lambda>k. snd (S ! k)) ` {i..e}"
        then obtain k where "i \<le> k" "k \<le> e" "p = snd (S ! k)" by auto
        with en have "p \<in> snd ` set (drop i S)"
          unfolding set_drop_nth by force
        with p show False by simp
      qed
      then have "r1 ! p = ranks ! p" using r1_nth [OF p(1)] by simp
      finally show ?thesis unfolding step .
    qed
    from part1 part2 part3 show ?thesis by blast
  qed
qed


text \<open>The mid-rank depends on the sample as a multiset only, so sorting does not change it.\<close>

lemma midrank_mset:
  assumes "mset a = mset b"
  shows "midrank a v = midrank b v"
proof -
  have "length (filter P a) = length (filter P b)" for P
  proof -
    have "mset (filter P a) = mset (filter P b)" using assms by simp
    then show ?thesis by (rule mset_eq_length)
  qed
  then show ?thesis by (simp add: midrank_def)
qed

lemma rankArray_midrank:
  "rankArray (map Num xs) = map (\<lambda>v. Num (midrank xs v)) xs"
proof -
  define n where "n = length xs"
  define S where "S = sort_key fst (zip xs [0..<n])"
  define R where "R = rank_loop (map (apfst Num) S) 0 (replicate n NaN)"
  have RA: "rankArray (map Num xs) = R"
    unfolding rankArray_def Let_def R_def S_def n_def
    by (simp add: zip_map_Num array_sort_Num)
  have lenS: "length S = n" unfolding S_def n_def by simp
  have msetS: "mset S = mset (zip xs [0..<n])" unfolding S_def by simp
  have srt: "sorted (map fst S)" unfolding S_def by (rule sorted_sort_key)
  have "mset (map snd S) = mset (map snd (zip xs [0..<n]))"
    using msetS by (simp only: mset_map)
  also have "map snd (zip xs [0..<n]) = [0..<n]" unfolding n_def by simp
  finally have msnd: "mset (map snd S) = mset [0..<n]" .
  have dist: "distinct (map snd S)"
    using mset_eq_imp_distinct_iff [OF msnd] by simp
  have "mset (map fst S) = mset (map fst (zip xs [0..<n]))"
    using msetS by (simp only: mset_map)
  also have "map fst (zip xs [0..<n]) = xs" unfolding n_def by simp
  finally have mfst: "mset (map fst S) = mset xs" .
  have elem: "snd (S ! k) < n \<and> fst (S ! k) = xs ! snd (S ! k)" if "k < n" for k
  proof -
    from that lenS have "S ! k \<in> set S" by simp
    also have "set S = set (zip xs [0..<n])" unfolding S_def by simp
    finally have "(fst (S ! k), snd (S ! k)) \<in> set (zip xs [0..<n])" by simp
    then show ?thesis unfolding n_def by (auto simp: in_set_zip)
  qed
  have bnd: "\<forall>k<length S. snd (S ! k) < length (replicate n NaN)"
    using elem lenS by simp
  have "0 = 0 \<or> 0 = length S \<or> fst (S ! (0 - 1)) < fst (S ! 0)" by simp
  from rank_loop_correct [OF srt dist bnd le0 this]
  have lenR: "length R = n"
    and rk: "\<forall>k. 0 \<le> k \<and> k < length S \<longrightarrow>
               R ! snd (S ! k) = Num (midrank (map fst S) (fst (S ! k)))"
    unfolding R_def by simp_all
  have "R ! p = Num (midrank xs (xs ! p))" if p: "p < n" for p
  proof -
    from p have "p \<in> set [0..<n]" by simp
    also have "set [0..<n] = set (map snd S)"
      using msnd by (metis mset_eq_setD)
    finally obtain k where k: "k < length S" "snd (S ! k) = p"
      by (auto simp: in_set_conv_nth)
    from rk k have "R ! p = Num (midrank (map fst S) (fst (S ! k)))" by blast
    also have "fst (S ! k) = xs ! p" using elem [of k] k lenS by simp
    also have "midrank (map fst S) (xs ! p) = midrank xs (xs ! p)"
      by (rule midrank_mset [OF mfst])
    finally show ?thesis .
  qed
  then have "R = map (\<lambda>v. Num (midrank xs v)) xs"
    using lenR by (intro nth_equalityI) (simp_all add: n_def)
  with RA show ?thesis by simp
qed


text \<open>
  The sum of the ranks. Summed over the sample, twice the number of smaller values plus
  the number of equal values is \<open>n\<^sup>2\<close>: each new element adds \<open>2 n + 1\<close>.
\<close>

lemma count_trichotomy:
  fixes a :: real
  shows "length (filter (\<lambda>u. u < a) xs) + length (filter (\<lambda>u. u = a) xs)
         + length (filter (\<lambda>u. a < u) xs) = length xs"
  by (induction xs) auto

lemma sum_twice_less_plus_equal_cons:
  fixes a :: real
  shows "(\<Sum>v\<leftarrow>xs. 2 * length (filter (\<lambda>u. u < v) (a # ys)) + length (filter (\<lambda>u. u = v) (a # ys)))
         = (\<Sum>v\<leftarrow>xs. 2 * length (filter (\<lambda>u. u < v) ys) + length (filter (\<lambda>u. u = v) ys))
           + 2 * length (filter (\<lambda>u. a < u) xs) + length (filter (\<lambda>u. u = a) xs)"
  by (induction xs) auto

lemma sum_twice_less_plus_equal:
  fixes xs :: "real list"
  shows "(\<Sum>v\<leftarrow>xs. 2 * length (filter (\<lambda>u. u < v) xs) + length (filter (\<lambda>u. u = v) xs))
         = length xs * length xs"
proof (induction xs)
  case Nil
  show ?case by simp
next
  case (Cons a xs)
  have "(\<Sum>v\<leftarrow>a # xs. 2 * length (filter (\<lambda>u. u < v) (a # xs))
            + length (filter (\<lambda>u. u = v) (a # xs)))
        = (2 * length (filter (\<lambda>u. u < a) (a # xs)) + length (filter (\<lambda>u. u = a) (a # xs)))
          + (\<Sum>v\<leftarrow>xs. 2 * length (filter (\<lambda>u. u < v) (a # xs))
                + length (filter (\<lambda>u. u = v) (a # xs)))"
    by (simp only: list.map sum_list.Cons)
  also have "(\<Sum>v\<leftarrow>xs. 2 * length (filter (\<lambda>u. u < v) (a # xs))
                + length (filter (\<lambda>u. u = v) (a # xs)))
        = length xs * length xs
          + 2 * length (filter (\<lambda>u. a < u) xs) + length (filter (\<lambda>u. u = a) xs)"
    by (simp only: sum_twice_less_plus_equal_cons Cons.IH)
  also have "2 * length (filter (\<lambda>u. u < a) (a # xs)) + length (filter (\<lambda>u. u = a) (a # xs))
        = 2 * length (filter (\<lambda>u. u < a) xs) + length (filter (\<lambda>u. u = a) xs) + 1"
    by simp
  finally have "(\<Sum>v\<leftarrow>a # xs. 2 * length (filter (\<lambda>u. u < v) (a # xs))
            + length (filter (\<lambda>u. u = v) (a # xs)))
        = 2 * length (filter (\<lambda>u. u < a) xs) + length (filter (\<lambda>u. u = a) xs) + 1
          + (length xs * length xs
             + 2 * length (filter (\<lambda>u. a < u) xs) + length (filter (\<lambda>u. u = a) xs))" .
  also have "\<dots> = 2 * (length (filter (\<lambda>u. u < a) xs) + length (filter (\<lambda>u. u = a) xs)
                      + length (filter (\<lambda>u. a < u) xs)) + 1 + length xs * length xs"
    by simp
  also have "\<dots> = 2 * length xs + 1 + length xs * length xs"
    by (simp only: count_trichotomy)
  finally show ?case by simp
qed

lemma sum_midrank:
  "(\<Sum>v\<leftarrow>xs. midrank xs v) = real (length xs) * (real (length xs) + 1) / 2"
proof -
  have "map (midrank xs) xs
        = map (\<lambda>v. (real (2 * length (filter (\<lambda>u. u < v) xs)
                             + length (filter (\<lambda>u. u = v) xs)) + 1) / 2) xs"
    by (rule map_cong) (simp_all add: midrank_closed field_simps)
  then have "(\<Sum>v\<leftarrow>xs. midrank xs v)
        = (\<Sum>v\<leftarrow>xs. (real (2 * length (filter (\<lambda>u. u < v) xs)
                             + length (filter (\<lambda>u. u = v) xs)) + 1) / 2)"
    by (simp only:)
  also have "\<dots> = (real (\<Sum>v\<leftarrow>xs. 2 * length (filter (\<lambda>u. u < v) xs)
                             + length (filter (\<lambda>u. u = v) xs)) + real (length xs)) / 2"
  proof -
    have "(\<Sum>v\<leftarrow>zs. (real (f v) + 1) / 2) = (real (\<Sum>v\<leftarrow>zs. f v) + real (length zs)) / 2"
      for f :: "real \<Rightarrow> nat" and zs
      by (induction zs) (simp_all add: field_simps)
    then show ?thesis .
  qed
  also have "\<dots> = (real (length xs * length xs) + real (length xs)) / 2"
    by (simp only: sum_twice_less_plus_equal)
  also have "\<dots> = real (length xs) * (real (length xs) + 1) / 2"
    by (simp add: field_simps)
  finally show ?thesis .
qed

lemma midrank_smallest:
  assumes "v \<in> set xs" "\<forall>u\<in>set xs. v \<le> u" "length (filter (\<lambda>u. u = v) xs) = 1"
  shows "midrank xs v = 1"
proof -
  have "filter (\<lambda>u. u < v) xs = []"
    using assms(2) by (auto simp: filter_empty_conv)
  then show ?thesis
    using assms(3) by (simp add: midrank_closed [OF assms(1)])
qed


text \<open>
  Claim C2. On a sample of finite numbers \<open>rankArray\<close> gives each position the mid-rank
  of its value: \<open>l + (k + 1) / 2\<close> for a value with \<open>l\<close> smaller and \<open>k\<close> equal values in
  the sample, which is the mean of the ranks \<open>l + 1, \<dots>, l + k\<close>. The ranks add up to
  \<open>n (n + 1) / 2\<close>, and a smallest value that occurs once has rank \<open>1\<close>.
\<close>

theorem rank_transform_midranks:
  "rankArray (map Num xs) = map (\<lambda>v. Num (midrank xs v)) xs
   \<and> (\<forall>v\<in>set xs. midrank xs v
          = real (length (filter (\<lambda>u. u < v) xs))
            + (real (length (filter (\<lambda>u. u = v) xs)) + 1) / 2)
   \<and> (\<Sum>v\<leftarrow>xs. midrank xs v) = real (length xs) * (real (length xs) + 1) / 2
   \<and> (\<forall>v\<in>set xs. (\<forall>u\<in>set xs. v \<le> u) \<and> length (filter (\<lambda>u. u = v) xs) = 1
          \<longrightarrow> midrank xs v = 1)"
proof (intro conjI ballI impI)
  show "rankArray (map Num xs) = map (\<lambda>v. Num (midrank xs v)) xs"
    by (rule rankArray_midrank)
  show "(\<Sum>v\<leftarrow>xs. midrank xs v) = real (length xs) * (real (length xs) + 1) / 2"
    by (rule sum_midrank)
next
  fix v assume "v \<in> set xs"
  then show "midrank xs v = real (length (filter (\<lambda>u. u < v) xs))
            + (real (length (filter (\<lambda>u. u = v) xs)) + 1) / 2"
    by (rule midrank_closed)
next
  fix v assume v: "v \<in> set xs"
    and "(\<forall>u\<in>set xs. v \<le> u) \<and> length (filter (\<lambda>u. u = v) xs) = 1"
  then have "\<forall>u\<in>set xs. v \<le> u" and "length (filter (\<lambda>u. u = v) xs) = 1"
    by blast+
  with v show "midrank xs v = 1" by (rule midrank_smallest)
qed

text \<open>
  The sample \<open>(7, 1, 7, 3, 2, 7)\<close>: the three sevens share the ranks 4, 5 and 6 and each
  gets 5; the ranks add up to 21.
\<close>

theorem rank_transform_midranks_witness:
  "rankArray [Num 7, Num 1, Num 7, Num 3, Num 2, Num 7]
     = [Num 5, Num 1, Num 5, Num 3, Num 2, Num 5]
   \<and> (\<Sum>v\<leftarrow>[7, 1, 7, 3, 2, 7]. midrank [7, 1, 7, 3, 2, 7] v) = 21
   \<and> midrank [7, 1, 7, 3, 2, 7] 1 = 1"
proof -
  have m: "map (midrank [7, 1, 7, 3, 2, 7]) [7, 1, 7, 3, 2, 7] = [5, 1, 5, 3, 2, 5]"
    by (simp add: midrank_def upt_rec)
  from rank_transform_midranks [of "[7, 1, 7, 3, 2, 7]"]
  have "rankArray (map Num [7, 1, 7, 3, 2, 7])
          = map Num (map (midrank [7, 1, 7, 3, 2, 7]) [7, 1, 7, 3, 2, 7])"
    and "(\<Sum>v\<leftarrow>[7, 1, 7, 3, 2, 7]. midrank [7, 1, 7, 3, 2, 7] v) = 21"
    by (simp_all add: comp_def)
  with m show ?thesis by simp
qed

subsection \<open>Spearman's rho\<close>

text \<open>
  Claim C4. \<open>spearmanr\<close> is \<open>pearsonr\<close> of the two rank transforms; on samples of finite
  numbers these are the mid-ranks, whether or not values are tied.
\<close>

theorem spearmanr_rank_transform:
  "spearmanr x y = pearsonr (rankArray x) (rankArray y)
   \<and> spearmanr (map Num xs) (map Num ys)
       = pearsonr (map (\<lambda>v. Num (midrank xs v)) xs) (map (\<lambda>v. Num (midrank ys v)) ys)"
  by (simp add: spearmanr_def rankArray_midrank)

subsection \<open>Kendall's tau\<close>

lemma set_index_pairs: "set (index_pairs n) = {(i, j). i < j \<and> j < n}"
  by (force simp: index_pairs_def)

lemma distinct_index_pairs: "distinct (index_pairs n)"
  unfolding index_pairs_def
  by (rule distinct_concat)
     (auto simp: distinct_map inj_on_def dest!: arg_cong [where f = length])

lemma index_pairs_loop:
  "index_pairs n = concat (map (\<lambda>i. map (Pair i) [Suc i..<n]) [0..<n - 1])"
  by (cases n) (simp_all add: index_pairs_def)

text \<open>Two nested loops visit the pairs in the order of the flattened list.\<close>

lemma foldl_nested:
  "foldl (\<lambda>acc i. foldl (f i) acc (g i)) a is
   = foldl (\<lambda>acc (i, j). f i acc j) a (concat (map (\<lambda>i. map (Pair i) (g i)) is))"
proof (induction "is" arbitrary: a)
  case Nil
  show ?case by simp
next
  case (Cons i "is")
  have inner: "foldl (\<lambda>acc (i, j). f i acc j) b (map (Pair i) js) = foldl (f i) b js" for b js
    by (induction js arbitrary: b) simp_all
  show ?case by (simp add: Cons.IH inner)
qed

lemma pair_step_Num:
  assumes "i < length xs" "j < length xs" "length ys = length xs"
  shows "pair_step (map Num xs) (map Num ys) i cd j =
         (if 0 < (xs ! i - xs ! j) * (ys ! i - ys ! j) then (Suc (fst cd), snd cd)
          else if (xs ! i - xs ! j) * (ys ! i - ys ! j) < 0 then (fst cd, Suc (snd cd))
          else cd)"
  using assms by (simp add: pair_step_def aget_Num jsub_def jgt_def Let_def)

lemma count_pairs:
  assumes "\<forall>(i, j) \<in> set ps. i < length xs \<and> j < length xs" "length ys = length xs"
  shows "foldl (\<lambda>acc (i, j). pair_step (map Num xs) (map Num ys) i acc j) cd ps
         = (fst cd + length (filter (\<lambda>(i, j). 0 < (xs ! i - xs ! j) * (ys ! i - ys ! j)) ps),
            snd cd + length (filter (\<lambda>(i, j). (xs ! i - xs ! j) * (ys ! i - ys ! j) < 0) ps))"
  using assms
proof (induction ps arbitrary: cd)
  case Nil
  show ?case by simp
next
  case (Cons p ps)
  obtain i j where p: "p = (i, j)" by (cases p)
  from Cons.prems p have ij: "i < length xs" "j < length xs" by auto
  from Cons.prems have rest: "\<forall>(i, j) \<in> set ps. i < length xs \<and> j < length xs" by auto
  show ?case
    by (simp add: p pair_step_Num [OF ij Cons.prems(2)] Cons.IH [OF rest Cons.prems(2)])
qed

lemma kendall_counts:
  assumes "length ys = length xs"
  shows "foldl (\<lambda>acc i. foldl (pair_step (map Num xs) (map Num ys) i) acc [Suc i..<length xs])
           (0, 0) [0..<length xs - 1]
         = (concordant xs ys, discordant xs ys)"
proof -
  have inr: "\<forall>(i, j) \<in> set (index_pairs (length xs)). i < length xs \<and> j < length xs"
    by (auto simp: set_index_pairs)
  have "foldl (\<lambda>acc i. foldl (pair_step (map Num xs) (map Num ys) i) acc [Suc i..<length xs])
           (0, 0) [0..<length xs - 1]
        = foldl (\<lambda>acc (i, j). pair_step (map Num xs) (map Num ys) i acc j) (0, 0)
            (index_pairs (length xs))"
    by (simp only: foldl_nested index_pairs_loop)
  also have "\<dots> = (concordant xs ys, discordant xs ys)"
    by (simp add: count_pairs [OF inr assms] concordant_def discordant_def)
  finally show ?thesis .
qed

text \<open>There are \<open>n (n - 1) / 2\<close> pairs.\<close>

lemma length_index_pairs: "2 * length (index_pairs n) = n * (n - 1)"
proof -
  have "length (index_pairs n) = (\<Sum>i\<leftarrow>[0..<n]. n - Suc i)"
    by (simp add: index_pairs_def length_concat comp_def)
  also have "\<dots> = (\<Sum>i<n. n - Suc i)"
    by (simp add: interv_sum_list_conv_sum_set_nat lessThan_atLeast0)
  also have "\<dots> = (\<Sum>i<n. i)"
    by (rule sum.nat_diff_reindex)
  finally have len: "length (index_pairs n) = (\<Sum>i<n. i)" .
  have "2 * (\<Sum>i<m. i) = m * (m - 1)" for m :: nat
    by (induction m) (auto simp: algebra_simps)
  with len show ?thesis by simp
qed

text \<open>
  Claim C1. On two samples of the same length \<open>n \<ge> 2\<close>, \<open>kendallTau\<close> is the number of
  concordant pairs minus the number of discordant pairs, over \<open>n (n - 1) / 2\<close>, which is
  the number of all pairs: a pair whose product is zero is counted in the denominator only.
\<close>

theorem kendallTau_formula:
  assumes "length xs = n" and "length ys = n" and "2 \<le> n"
  shows "kendallTau (map Num xs) (map Num ys)
           = Num ((real (concordant xs ys) - real (discordant xs ys))
                  / (real n * (real n - 1) / 2))
         \<and> real (length (index_pairs n)) = real n * (real n - 1) / 2"
proof
  have len: "length ys = length xs" using assms by simp
  have cd: "foldl (\<lambda>acc i. foldl (pair_step (map Num xs) (map Num ys) i) acc
                 [Suc i..<length (map Num xs)]) (0, 0) [0..<length (map Num xs) - 1]
            = (concordant xs ys, discordant xs ys)"
    using kendall_counts [OF len] by simp
  have "real n * (real n - 1) / 2 \<noteq> 0" using assms(3) by simp
  then show "kendallTau (map Num xs) (map Num ys)
           = Num ((real (concordant xs ys) - real (discordant xs ys))
                  / (real n * (real n - 1) / 2))"
    unfolding kendallTau_def Let_def cd using assms(1) by (simp add: jsub_def)
  have "real (2 * length (index_pairs n)) = real (n * (n - 1))"
    by (simp only: length_index_pairs)
  with assms(3) show "real (length (index_pairs n)) = real n * (real n - 1) / 2"
    by (simp add: of_nat_diff)
qed

text \<open>
  The sample \<open>x = (1, 1, 2)\<close>, \<open>y = (1, 2, 3)\<close>: one pair tied in \<open>x\<close>, two concordant
  pairs, three pairs in all.
\<close>

theorem kendallTau_formula_witness:
  "kendallTau [Num 1, Num 1, Num 2] [Num 1, Num 2, Num 3] = Num (2 / 3)
   \<and> concordant [1, 1, 2] [1, 2, 3] = 2 \<and> discordant [1, 1, 2] [1, 2, 3] = 0
   \<and> length (index_pairs 3) = 3"
proof -
  have c: "concordant [1, 1, 2] [1, 2, 3] = 2" and d: "discordant [1, 1, 2] [1, 2, 3] = 0"
    and l: "length (index_pairs 3) = 3"
    by (simp_all add: concordant_def discordant_def index_pairs_def upt_rec)
  from kendallTau_formula [of "[1, 1, 2]" 3 "[1, 2, 3]"] c d l show ?thesis
    by simp
qed

subsection \<open>Where the statistics are not numbers\<close>


subsection \<open>Rounding to double\<close>






















subsection \<open>The engine without rounding\<close>

text \<open>With the identity as rounding step the rounded functions are the exact ones.\<close>

lemma jround_id: "jround (\<lambda>r. r) v = v"
  by (cases v) simp_all

lemma mean_fl_id: "mean_fl (\<lambda>r. r) a = mean a"
  by (simp add: mean_fl_def mean_def jround_id)

lemma sd_fl_id: "sd_fl (\<lambda>r. r) a = sd a"
  by (simp add: sd_fl_def sd_def jround_id mean_fl_id)

lemma pearsonr_fl_id: "pearsonr_fl (\<lambda>r. r) x y = pearsonr x y"
  by (simp add: pearsonr_fl_def pearsonr_def jround_id mean_fl_id sd_fl_id)

lemma spearmanr_fl_id: "spearmanr_fl (\<lambda>r. r) x y = spearmanr x y"
  by (simp add: spearmanr_fl_def spearmanr_def pearsonr_fl_id)

subsection \<open>Samples with no deviation from the computed mean\<close>











subsection \<open>A second sample shorter than the first\<close>





subsection \<open>Samples of numbers\<close>











subsection \<open>Constant samples\<close>












section \<open>Properties of the guess check\<close>

lemma tol_cases:
  "tol pf s = (case pf (toleranceInput s) of
       Num r \<Rightarrow> if r = 0 then Num (1 / 10) else Num \<bar>r\<bar>
     | NaN \<Rightarrow> Num (1 / 10)
     | _ \<Rightarrow> PosInf)"
  by (simp add: tol_def jor_def split: jsnum.splits)




text \<open>
  Claim C7. When one of the three guess fields parses to NaN, the check only replaces the
  content of \<open>resultDiv\<close> by the request to fill all three guesses: no report (no
  difference, no verdict) is written, the round and the four input fields are as before.
\<close>

theorem checkGuesses_non_numeric:
  assumes "isNaN (pf (pearsonInput s)) \<or> isNaN (pf (spearmanInput s))
           \<or> isNaN (pf (kendallInput s))"
  shows "checkGuesses pf s = s\<lparr>resultDiv := FillAllThree\<rparr>
         \<and> current (checkGuesses pf s) = current s
         \<and> pearsonInput (checkGuesses pf s) = pearsonInput s
         \<and> spearmanInput (checkGuesses pf s) = spearmanInput s
         \<and> kendallInput (checkGuesses pf s) = kendallInput s
         \<and> toleranceInput (checkGuesses pf s) = toleranceInput s"
  using assms by (simp add: checkGuesses_def Let_def)

text \<open>An empty Kendall field beside two filled ones.\<close>

theorem checkGuesses_non_numeric_witness:
  "checkGuesses (\<lambda>w. if w = [] then NaN else Num (1 / 2))
      \<lparr>toleranceInput = ''0.1'', pearsonInput = ''0.5'', spearmanInput = ''0.5'',
       kendallInput = [], resultDiv = NewPlot 50,
       current = \<lparr>sample_xs = [], sample_ys = [], pearson = Num (50 / 100),
                  spearman = Num (48 / 100), kendall = Num (33 / 100)\<rparr>\<rparr>
   = \<lparr>toleranceInput = ''0.1'', pearsonInput = ''0.5'', spearmanInput = ''0.5'',
       kendallInput = [], resultDiv = FillAllThree,
       current = \<lparr>sample_xs = [], sample_ys = [], pearson = Num (50 / 100),
                  spearman = Num (48 / 100), kendall = Num (33 / 100)\<rparr>\<rparr>"
  using checkGuesses_non_numeric [of "\<lambda>w. if w = [] then NaN else Num (1 / 2)"
      "\<lparr>toleranceInput = ''0.1'', pearsonInput = ''0.5'', spearmanInput = ''0.5'',
       kendallInput = [], resultDiv = NewPlot 50,
       current = \<lparr>sample_xs = [], sample_ys = [], pearson = Num (50 / 100),
                  spearman = Num (48 / 100), kendall = Num (33 / 100)\<rparr>\<rparr>"]
  by simp

text \<open>
  Claim C10. The tolerance the check applies is strictly positive whatever the tolerance
  field holds: \<open>0.1\<close> when the field parses to zero or to NaN, the absolute value when it
  parses to a negative number, the number itself when it parses to a positive one.
\<close>

theorem tol_strictly_positive:
  "jgt (tol pf s) (Num 0)
   \<and> (pf (toleranceInput s) = Num 0 \<or> pf (toleranceInput s) = NaN \<longrightarrow> tol pf s = Num (1 / 10))
   \<and> (\<forall>r. pf (toleranceInput s) = Num r \<and> r < 0 \<longrightarrow> tol pf s = Num \<bar>r\<bar>)
   \<and> (\<forall>r. pf (toleranceInput s) = Num r \<and> 0 < r \<longrightarrow> tol pf s = Num r)"
  by (auto simp add: tol_cases jgt_def split: jsnum.splits)

text \<open>Fields holding \<open>0\<close>, nothing, \<open>-0.2\<close> and \<open>0.3\<close>.\<close>

theorem tol_strictly_positive_witness:
  "tol (\<lambda>w. if w = ''0'' then Num 0 else NaN)
       \<lparr>toleranceInput = ''0'', pearsonInput = [], spearmanInput = [], kendallInput = [],
        resultDiv = NewPlot 50,
        current = \<lparr>sample_xs = [], sample_ys = [], pearson = NaN, spearman = NaN,
                   kendall = NaN\<rparr>\<rparr> = Num (1 / 10)
   \<and> tol (\<lambda>w. NaN)
       \<lparr>toleranceInput = [], pearsonInput = [], spearmanInput = [], kendallInput = [],
        resultDiv = NewPlot 50,
        current = \<lparr>sample_xs = [], sample_ys = [], pearson = NaN, spearman = NaN,
                   kendall = NaN\<rparr>\<rparr> = Num (1 / 10)
   \<and> tol (\<lambda>w. if w = ''-0.2'' then Num (- (2 / 10)) else NaN)
       \<lparr>toleranceInput = ''-0.2'', pearsonInput = [], spearmanInput = [], kendallInput = [],
        resultDiv = NewPlot 50,
        current = \<lparr>sample_xs = [], sample_ys = [], pearson = NaN, spearman = NaN,
                   kendall = NaN\<rparr>\<rparr> = Num (2 / 10)
   \<and> tol (\<lambda>w. if w = ''0.3'' then Num (3 / 10) else NaN)
       \<lparr>toleranceInput = ''0.3'', pearsonInput = [], spearmanInput = [], kendallInput = [],
        resultDiv = NewPlot 50,
        current = \<lparr>sample_xs = [], sample_ys = [], pearson = NaN, spearman = NaN,
                   kendall = NaN\<rparr>\<rparr> = Num (3 / 10)"
  using
    tol_strictly_positive [of "\<lambda>w. if w = ''0'' then Num 0 else NaN"
       "\<lparr>toleranceInput = ''0'', pearsonInput = [], spearmanInput = [], kendallInput = [],
        resultDiv = NewPlot 50,
        current = \<lparr>sample_xs = [], sample_ys = [], pearson = NaN, spearman = NaN,
                   kendall = NaN\<rparr>\<rparr>"]
    tol_strictly_positive [of "\<lambda>w. NaN"
       "\<lparr>toleranceInput = [], pearsonInput = [], spearmanInput = [], kendallInput = [],
        resultDiv = NewPlot 50,
        current = \<lparr>sample_xs = [], sample_ys = [], pearson = NaN, spearman = NaN,
                   kendall = NaN\<rparr>\<rparr>"]
    tol_strictly_positive [of "\<lambda>w. if w = ''-0.2'' then Num (- (2 / 10)) else NaN"
       "\<lparr>toleranceInput = ''-0.2'', pearsonInput = [], spearmanInput = [], kendallInput = [],
        resultDiv = NewPlot 50,
        current = \<lparr>sample_xs = [], sample_ys = [], pearson = NaN, spearman = NaN,
                   kendall = NaN\<rparr>\<rparr>"]
    tol_strictly_positive [of "\<lambda>w. if w = ''0.3'' then Num (3 / 10) else NaN"
       "\<lparr>toleranceInput = ''0.3'', pearsonInput = [], spearmanInput = [], kendallInput = [],
        resultDiv = NewPlot 50,
        current = \<lparr>sample_xs = [], sample_ys = [], pearson = NaN, spearman = NaN,
                   kendall = NaN\<rparr>\<rparr>"]
  by simp

end
